theory Spec2Isabelle
  imports Complex_Main "HOL-Library.Sublist" "HOL-Library.AList"
begin

section \<open>The NHX parser of nhx.js\<close>

text \<open>
  The development follows \<^verbatim>\<open>src/nhx.js\<close>: the input normalizer
  \<^verbatim>\<open>appendBoundaries\<close>, the scanner \<^verbatim>\<open>tokenize\<close>, the clean-up
  \<^verbatim>\<open>deleteParentAttr\<close> and the translator \<^verbatim>\<open>translateNode\<close> with its
  helpers \<^verbatim>\<open>setNameAndLength\<close> and \<^verbatim>\<open>setNhxAttrs\<close>.

  A JavaScript string is modelled as a \<^typ>\<open>string\<close>, read as its sequence of code
  units; only code units below 256 can be written. All characters the parser looks at
  are ASCII.
\<close>

subsection \<open>String primitives of the language\<close>

text \<open>
  \<^verbatim>\<open>text.replace(/\)/g, ',)')\<close>: every closing parenthesis is replaced by a comma
  followed by a closing parenthesis.
\<close>

definition replaceCloseParen :: "string \<Rightarrow> string" where
  "replaceCloseParen text = concat (map (\<lambda>c. if c = CHR '')'' then '',)'' else [c]) text)"

text \<open>
  \<^verbatim>\<open>text.replace(/;$/, ',')\<close>: without the multiline flag, \<^verbatim>\<open>$\<close> matches at
  the end of the input only, so the pattern matches exactly when the last character
  is a semicolon.
\<close>

definition replaceFinalSemicolon :: "string \<Rightarrow> string" where
  "replaceFinalSemicolon text =
     (if text \<noteq> [] \<and> last text = CHR '';'' then butlast text @ '','' else text)"

text \<open>
  \<^verbatim>\<open>str.indexOf(sub)\<close>: the position of the first occurrence, or \<open>-1\<close>.
\<close>

fun indexOf :: "string \<Rightarrow> string \<Rightarrow> int" where
  "indexOf [] sub = (if sub = [] then 0 else - 1)"
| "indexOf (c # cs) sub =
     (if prefix sub (c # cs) then 0
      else (let r = indexOf cs sub in if r = - 1 then - 1 else r + 1))"

text \<open>
  \<^verbatim>\<open>str.split(sep)\<close> with a string separator: the pieces between the
  occurrences of the separator, found from left to right without overlap. The empty
  separator splits into single code units.
\<close>

function split :: "string \<Rightarrow> string \<Rightarrow> string list" where
  "split [] sep = (if sep = [] then [] else [[]])"
| "split (c # cs) sep =
     (if sep = [] then [c] # split cs sep
      else if prefix sep (c # cs) then [] # split (drop (length sep) (c # cs)) sep
      else (case split cs sep of [] \<Rightarrow> [[c]] | p # ps \<Rightarrow> (c # p) # ps))"
  by pat_completeness auto
termination
  by (relation "measure (\<lambda>(s, sep). length s)") auto

text \<open>
  \<^verbatim>\<open>str.substr(start, length)\<close>: a negative start counts from the end of the
  string, and the piece is clamped to the string.
\<close>

definition substr :: "string \<Rightarrow> int \<Rightarrow> int \<Rightarrow> string" where
  "substr str start len =
     (let size = int (length str);
          from = (if start < 0 then max (size + start) 0 else min start size);
          n = min (max len 0) (size - from)
      in take (nat n) (drop (nat from) str))"

text \<open>
  \<^verbatim>\<open>text.replace(/]$/g, '')\<close>: one closing bracket at the very end of the string
  is removed.
\<close>

definition stripFinalBracket :: "string \<Rightarrow> string" where
  "stripFinalBracket text =
     (if text \<noteq> [] \<and> last text = CHR '']'' then butlast text else text)"

subsection \<open>Numbers and parseFloat\<close>

text \<open>
  A JavaScript number is kept symbolically: \<open>Finite q\<close> stands for the Number value
  for the rational \<open>q\<close> (the double nearest to \<open>q\<close>), so the rounding to a double
  is not computed. \<open>Finite 0\<close> is the positive zero.
\<close>

datatype number = NaN | PosInfinity | NegInfinity | NegZero | Finite rat

text \<open>
  \<^verbatim>\<open>parseFloat\<close> is a built-in of the language. It skips leading white space,
  takes the longest prefix of the rest that is a \<^verbatim>\<open>StrDecimalLiteral\<close>, and
  returns its value; when no prefix is such a literal, the result is \<open>NaN\<close>.
\<close>

definition isWhiteSpace :: "char \<Rightarrow> bool" where
  "isWhiteSpace c \<longleftrightarrow>
     c \<in> set [CHR 0x09, CHR 0x0A, CHR 0x0B, CHR 0x0C, CHR 0x0D, CHR 0x20, CHR 0xA0]"

definition isDecimalDigit :: "char \<Rightarrow> bool" where
  "isDecimalDigit c \<longleftrightarrow> c \<in> set ''0123456789''"

definition isDecimalDigits :: "string \<Rightarrow> bool" where
  "isDecimalDigits s \<longleftrightarrow> s \<noteq> [] \<and> list_all isDecimalDigit s"

definition isSignedInteger :: "string \<Rightarrow> bool" where
  "isSignedInteger s =
     (case s of [] \<Rightarrow> False
      | c # r \<Rightarrow> if c = CHR ''+'' \<or> c = CHR ''-'' then isDecimalDigits r
                 else isDecimalDigits s)"

definition isExponentPart :: "string \<Rightarrow> bool" where
  "isExponentPart s =
     (case s of [] \<Rightarrow> False
      | c # r \<Rightarrow> (c = CHR ''e'' \<or> c = CHR ''E'') \<and> isSignedInteger r)"

definition isStrUnsignedDecimalLiteral :: "string \<Rightarrow> bool" where
  "isStrUnsignedDecimalLiteral s =
     (s = ''Infinity'' \<or>
      (let ip = takeWhile isDecimalDigit s; r = dropWhile isDecimalDigit s in
       case r of [] \<Rightarrow> ip \<noteq> []
       | c # r' \<Rightarrow>
           if c = CHR ''.'' then
             (let fp = takeWhile isDecimalDigit r'; e = dropWhile isDecimalDigit r'
              in (ip \<noteq> [] \<or> fp \<noteq> []) \<and> (e = [] \<or> isExponentPart e))
           else ip \<noteq> [] \<and> isExponentPart r))"

definition isStrDecimalLiteral :: "string \<Rightarrow> bool" where
  "isStrDecimalLiteral s =
     (case s of [] \<Rightarrow> False
      | c # r \<Rightarrow> if c = CHR ''+'' \<or> c = CHR ''-'' then isStrUnsignedDecimalLiteral r
                 else isStrUnsignedDecimalLiteral s)"

definition digitValue :: "char \<Rightarrow> nat" where
  "digitValue c = of_char c - 48"

definition digitsValue :: "string \<Rightarrow> nat" where
  "digitsValue s = foldl (\<lambda>a c. 10 * a + digitValue c) 0 s"

definition signedIntegerValue :: "string \<Rightarrow> int" where
  "signedIntegerValue s =
     (case s of [] \<Rightarrow> 0
      | c # r \<Rightarrow> if c = CHR ''-'' then - int (digitsValue r)
                 else if c = CHR ''+'' then int (digitsValue r)
                 else int (digitsValue s))"

text \<open>The mathematical value of an unsigned literal other than \<^verbatim>\<open>Infinity\<close>.\<close>

definition unsignedMV :: "string \<Rightarrow> rat" where
  "unsignedMV s =
     (let ip = takeWhile isDecimalDigit s; r = dropWhile isDecimalDigit s;
          fp = (case r of [] \<Rightarrow> []
                | c # r' \<Rightarrow> if c = CHR ''.'' then takeWhile isDecimalDigit r' else []);
          e = (case r of [] \<Rightarrow> []
               | c # r' \<Rightarrow> if c = CHR ''.'' then dropWhile isDecimalDigit r' else r);
          x = (case e of [] \<Rightarrow> 0 | _ # se \<Rightarrow> signedIntegerValue se) - int (length fp);
          m = of_nat (digitsValue (ip @ fp))
      in if 0 \<le> x then m * 10 ^ nat x else m / 10 ^ nat (- x))"

definition StringNumericValue :: "string \<Rightarrow> number" where
  "StringNumericValue s =
     (let neg = (s \<noteq> [] \<and> hd s = CHR ''-'');
          u = (if s \<noteq> [] \<and> (hd s = CHR ''+'' \<or> hd s = CHR ''-'') then tl s else s)
      in if u = ''Infinity'' then (if neg then NegInfinity else PosInfinity)
         else (let mv = unsignedMV u
               in if mv = 0 \<and> neg then NegZero else Finite (if neg then - mv else mv)))"

definition parseFloat :: "string \<Rightarrow> number" where
  "parseFloat s =
     (let trimmed = dropWhile isWhiteSpace s
      in case filter isStrDecimalLiteral (rev (prefixes trimmed)) of
           [] \<Rightarrow> NaN
         | p # _ \<Rightarrow> StringNumericValue p)"

subsection \<open>Values and objects\<close>

text \<open>
  The values the parser stores in a node. An object is the list of its own properties in
  the order of their first assignment; an array is the list of its elements. (The
  language enumerates keys that are array indices before the others; the statements
  below read properties by key, and the worked examples have no such key.) \<open>Ref a\<close> is
  a reference to the object at address \<open>a\<close> of the scanner's store (the
  \<^verbatim>\<open>parent\<close> link).
\<close>

datatype jsval =
    Undefined
  | Str string
  | Num number
  | Arr "jsval list"
  | Obj "(string \<times> jsval) list"
  | Ref nat

type_synonym props = "(string \<times> jsval) list"

datatype error = TypeError | RangeError

text \<open>
  \<^verbatim>\<open>node[k] = v\<close> on an ordinary object, for a value \<open>v\<close> that is a string, a
  number or \<^verbatim>\<open>undefined\<close> (the parser assigns nothing else through a computed
  key). The key \<^verbatim>\<open>__proto__\<close> is not stored: it reaches the setter that every
  ordinary object inherits from \<^verbatim>\<open>Object.prototype\<close>, and that setter ignores a
  value that is neither an object nor \<^verbatim>\<open>null\<close>. Any other key becomes an own
  property: a new key is appended, an existing key keeps its place.
\<close>

definition assign :: "props \<Rightarrow> string \<Rightarrow> jsval \<Rightarrow> props" where
  "assign node k v = (if k = ''__proto__'' then node else AList.update k v node)"

text \<open>\<^verbatim>\<open>parts[i]\<close>: an element of an array of strings, \<^verbatim>\<open>undefined\<close> out of range.\<close>

definition element :: "string list \<Rightarrow> nat \<Rightarrow> jsval" where
  "element parts i = (if i < length parts then Str (parts ! i) else Undefined)"

text \<open>
  \<^verbatim>\<open>parseFloat\<close> applied to such an element. The argument is converted to a string
  first, and \<^verbatim>\<open>undefined\<close> becomes the text \<^verbatim>\<open>undefined\<close>.
\<close>

definition parseFloatOf :: "jsval \<Rightarrow> number" where
  "parseFloatOf v = (case v of Str s \<Rightarrow> parseFloat s | _ \<Rightarrow> parseFloat ''undefined'')"

text \<open>
  \<^verbatim>\<open>foreach(collection, callback)\<close> calls the callback on every element in order;
  the callback's effect on the node under construction is threaded through.
\<close>

definition foreach :: "'a list \<Rightarrow> ('s \<Rightarrow> 'a \<Rightarrow> 's) \<Rightarrow> 's \<Rightarrow> 's" where
  "foreach collection callback st = foldl callback st collection"

subsection \<open>appendBoundaries\<close>

definition appendBoundaries :: "string \<Rightarrow> string" where
  "appendBoundaries text = replaceFinalSemicolon (replaceCloseParen text)"

text \<open>
  The normalizer as the specification words it: a comma is inserted before every
  closing parenthesis, a semicolon that is the last character becomes a comma, and
  every other character is copied.
\<close>

fun normalized_per_spec :: "string \<Rightarrow> string" where
  "normalized_per_spec [] = []"
| "normalized_per_spec [c] =
     (if c = CHR '')'' then '',)'' else if c = CHR '';'' then '','' else [c])"
| "normalized_per_spec (c # cs) =
     (if c = CHR '')'' then '',)'' else [c]) @ normalized_per_spec cs"

subsection \<open>tokenize\<close>

text \<open>
  The scanner builds its tree by mutating objects that it reaches through several
  references (\<^verbatim>\<open>current\<close>, \<^verbatim>\<open>parent\<close>, \<^verbatim>\<open>prevNode\<close>), so the objects
  live in a store: a list of objects, an object's address being its index. A new object
  is appended. The objects of this stage have at most the three properties
  \<^verbatim>\<open>branchset\<close> (the addresses of the children), \<^verbatim>\<open>parent\<close> and
  \<^verbatim>\<open>text\<close>; \<open>None\<close> means that the property is absent.
\<close>

record rawobj =
  branchset :: "nat list option"
  parent :: "nat option"
  "text" :: "string option"

text \<open>
  The local variables of \<^verbatim>\<open>tokenize\<close>. \<open>current = None\<close> is
  \<^verbatim>\<open>undefined\<close> (the parent of the synthetic root), \<open>prevNode = None\<close> is
  \<^verbatim>\<open>null\<close>.
\<close>

record tstate =
  heap :: "rawobj list"
  current :: "nat option"
  textBegin :: int
  inNhxAttr :: bool
  prevNode :: "nat option"

definition tokenize_init :: tstate where
  "tokenize_init =
     \<lparr>heap = [\<lparr>branchset = Some [], parent = None, text = None\<rparr>],
      current = Some 0, textBegin = 0, inNhxAttr = False, prevNode = None\<rparr>"

text \<open>
  \<^verbatim>\<open>target.branchset.push(child)\<close>, where the child is the object the store gets
  next. Reading \<^verbatim>\<open>branchset\<close> of \<^verbatim>\<open>undefined\<close>, or calling
  \<^verbatim>\<open>push\<close> on an absent property, is a TypeError.
\<close>

definition push_child :: "rawobj list \<Rightarrow> nat option \<Rightarrow> rawobj \<Rightarrow> error + rawobj list" where
  "push_child h target child =
     (case target of
        None \<Rightarrow> Inl TypeError
      | Some a \<Rightarrow>
          (case branchset (h ! a) of
             None \<Rightarrow> Inl TypeError
           | Some bs \<Rightarrow> Inr (h[a := (h ! a)\<lparr>branchset := Some (bs @ [length h])\<rparr>] @ [child])))"

text \<open>One round of the loop, at index \<open>i\<close>.\<close>

definition tokenize_step :: "string \<Rightarrow> nat \<Rightarrow> tstate \<Rightarrow> error + tstate" where
  "tokenize_step str i st =
     (let char = str ! i in
      if char = CHR ''('' then
        (case push_child (heap st) (current st)
                \<lparr>branchset = Some [], parent = current st, text = None\<rparr> of
           Inl e \<Rightarrow> Inl e
         | Inr h \<Rightarrow>
             Inr (st\<lparr>heap := h, current := Some (length (heap st)), textBegin := int i + 1\<rparr>))
      else if char = CHR '')'' then
        (case current st of
           None \<Rightarrow> Inl TypeError
         | Some c \<Rightarrow>
             Inr (st\<lparr>prevNode := Some c, current := parent (heap st ! c),
                     textBegin := int i + 1\<rparr>))
      else if char = CHR '','' then
        (if inNhxAttr st then Inr st
         else
           (let text = substr str (textBegin st) (int i - textBegin st);
                isCharBeforeTextCloseBracket = (substr str (textBegin st - 1) 1 = '')'')
            in if isCharBeforeTextCloseBracket then
                 (case prevNode st of
                    None \<Rightarrow> Inl TypeError
                  | Some p \<Rightarrow>
                      Inr (st\<lparr>heap := (heap st)[p := (heap st ! p)\<lparr>text := Some text\<rparr>],
                              textBegin := int i + 1\<rparr>))
               else
                 (case push_child (heap st) (current st)
                         \<lparr>branchset = None, parent = None, text = Some text\<rparr> of
                    Inl e \<Rightarrow> Inl e
                  | Inr h \<Rightarrow> Inr (st\<lparr>heap := h, textBegin := int i + 1\<rparr>))))
      else if char = CHR ''['' then Inr (st\<lparr>inNhxAttr := True\<rparr>)
      else if char = CHR '']'' then Inr (st\<lparr>inNhxAttr := False\<rparr>)
      else Inr st)"

text \<open>The loop over the indices; an exception ends it.\<close>

fun tokenize_loop :: "string \<Rightarrow> nat list \<Rightarrow> tstate \<Rightarrow> error + tstate" where
  "tokenize_loop str [] st = Inr st"
| "tokenize_loop str (i # is) st =
     (case tokenize_step str i st of
        Inl e \<Rightarrow> Inl e
      | Inr st' \<Rightarrow> tokenize_loop str is st')"

text \<open>
  \<^verbatim>\<open>return current.branchset[0]\<close>: the address of the first child of the current
  node, or \<^verbatim>\<open>undefined\<close> (\<open>None\<close>) when it has no child.
\<close>

definition tokenize_result :: "tstate \<Rightarrow> error + nat option" where
  "tokenize_result st =
     (case current st of
        None \<Rightarrow> Inl TypeError
      | Some c \<Rightarrow>
          (case branchset (heap st ! c) of
             None \<Rightarrow> Inl TypeError
           | Some bs \<Rightarrow> Inr (case bs of [] \<Rightarrow> None | a # _ \<Rightarrow> Some a)))"

definition tokenize :: "string \<Rightarrow> error + rawobj list \<times> nat option" where
  "tokenize str =
     (case tokenize_loop str [0..<length str] tokenize_init of
        Inl e \<Rightarrow> Inl e
      | Inr st \<Rightarrow>
          (case tokenize_result st of
             Inl e \<Rightarrow> Inl e
           | Inr r \<Rightarrow> Inr (heap st, r)))"

subsection \<open>The object graph as a tree\<close>

text \<open>
  After the scan, the rest of \<^verbatim>\<open>parse\<close> walks the objects reachable from the
  returned one through \<^verbatim>\<open>branchset\<close>. \<open>reify\<close> reads that part of the store as a
  tree value; the \<^verbatim>\<open>parent\<close> link stays an address. The first argument bounds
  the depth of the walk: the result is \<open>None\<close> if the bound is reached (or an address
  is not in the store), which for a bound of the size of the store means that the
  graph is not a tree. The three arguments of \<open>RawNode\<close> are the properties
  \<^verbatim>\<open>branchset\<close>, \<^verbatim>\<open>parent\<close> and \<^verbatim>\<open>text\<close>.
\<close>

datatype rawnode = RawNode "rawnode list option" "nat option" "string option"

fun reify :: "nat \<Rightarrow> rawobj list \<Rightarrow> nat \<Rightarrow> rawnode option" where
  "reify 0 h a = None"
| "reify (Suc fuel) h a =
     (if a < length h then
        (case branchset (h ! a) of
           None \<Rightarrow> Some (RawNode None (parent (h ! a)) (text (h ! a)))
         | Some cs \<Rightarrow>
             (case those (map (reify fuel h) cs) of
                None \<Rightarrow> None
              | Some ts \<Rightarrow> Some (RawNode (Some ts) (parent (h ! a)) (text (h ! a)))))
      else None)"

subsection \<open>deleteParentAttr\<close>

fun deleteParentAttr :: "rawnode \<Rightarrow> rawnode" where
  "deleteParentAttr (RawNode bs par txt) =
     (case bs of
        Some cs \<Rightarrow> RawNode (Some (map deleteParentAttr cs)) None txt
      | None \<Rightarrow> RawNode bs par txt)"

subsection \<open>setNameAndLength\<close>

definition setNameAndLength :: "props \<Rightarrow> string \<Rightarrow> props" where
  "setNameAndLength node str =
     (if indexOf str '':'' \<noteq> - 1 then
        (let parts = split str '':'' in
         AList.update ''length'' (Num (parseFloatOf (element parts 1)))
           (AList.update ''name'' (element parts 0) node))
      else if length str \<noteq> 0 then
        AList.update ''length'' (Num (Finite 0)) (AList.update ''name'' (Str str) node)
      else
        AList.update ''length'' (Num (Finite 0)) (AList.update ''name'' (Str []) node))"

subsection \<open>setNhxAttrs\<close>

text \<open>
  The callback of \<^verbatim>\<open>setNhxAttrs\<close>: \<^verbatim>\<open>kv = kv.split('='); node[kv[0]] = kv[1]\<close>.
  A property key is a string, so an absent \<^verbatim>\<open>kv[0]\<close> would be the key
  \<^verbatim>\<open>undefined\<close>.
\<close>

definition setNhxAttr :: "props \<Rightarrow> string \<Rightarrow> props" where
  "setNhxAttr node kv =
     (let kv = split kv ''='' in
      assign node (case element kv 0 of Str k \<Rightarrow> k | _ \<Rightarrow> ''undefined'') (element kv 1))"

definition setNhxAttrs :: "props \<Rightarrow> string \<Rightarrow> props" where
  "setNhxAttrs node txt =
     (if length txt = 0 then node else foreach (split txt '':'') setNhxAttr node)"

subsection \<open>translateNode\<close>

text \<open>The calls of a loop over a list, one after the other; the first exception ends it.\<close>

fun sequence :: "(error + 'a) list \<Rightarrow> error + 'a list" where
  "sequence [] = Inr []"
| "sequence (r # rs) =
     (case r of
        Inl e \<Rightarrow> Inl e
      | Inr x \<Rightarrow> (case sequence rs of Inl e \<Rightarrow> Inl e | Inr xs \<Rightarrow> Inr (x # xs)))"

text \<open>
  \<^verbatim>\<open>translateNode\<close> rewrites the node in place; the model returns the node's final
  properties. The children are translated first, then \<^verbatim>\<open>text\<close> is deleted and
  name, length and tags are assigned, so they come after \<^verbatim>\<open>branchset\<close> in the
  object. \<^verbatim>\<open>parts[1]\<close> of a split with fewer than two pieces is
  \<^verbatim>\<open>undefined\<close>, whose \<^verbatim>\<open>length\<close> is a TypeError.
\<close>

fun translateNode :: "rawnode \<Rightarrow> error + jsval" where
  "translateNode (RawNode bs par txt) =
     (case (case bs of
              None \<Rightarrow> Inr []
            | Some cs \<Rightarrow>
                (case sequence (map translateNode cs) of
                   Inl e \<Rightarrow> Inl e
                 | Inr ts \<Rightarrow> Inr [(''branchset'', Arr ts)])) of
        Inl e \<Rightarrow> Inl e
      | Inr node0 \<Rightarrow>
          (let node = node0 @ (case par of None \<Rightarrow> [] | Some p \<Rightarrow> [(''parent'', Ref p)]) in
           case txt of
             None \<Rightarrow> Inr (Obj node)
           | Some t \<Rightarrow>
               (let text = stripFinalBracket t in
                if indexOf text ''[&&NHX:'' \<noteq> - 1 then
                  (case split text ''[&&NHX:'' of
                     p0 # p1 # _ \<Rightarrow> Inr (Obj (setNhxAttrs (setNameAndLength node p0) p1))
                   | _ \<Rightarrow> Inl TypeError)
                else Inr (Obj (setNameAndLength node text)))))"

subsection \<open>parse\<close>

text \<open>
  \<^verbatim>\<open>deleteParentAttr(undefined)\<close> is a TypeError. A walk that does not end would
  exhaust the call stack (a RangeError); \<open>parse_not_RangeError\<close> below shows that the
  scanner never builds such a store, so that this branch is never taken.
\<close>

definition parse :: "string \<Rightarrow> error + jsval" where
  "parse str =
     (case tokenize (appendBoundaries str) of
        Inl e \<Rightarrow> Inl e
      | Inr (h, r) \<Rightarrow>
          (case r of
             None \<Rightarrow> Inl TypeError
           | Some a \<Rightarrow>
               (case reify (length h) h a of
                  None \<Rightarrow> Inl RangeError
                | Some tmp \<Rightarrow> translateNode (deleteParentAttr tmp))))"

subsection \<open>Notions used in the statements\<close>

text \<open>
  What \<^verbatim>\<open>translateNode\<close> passes on for a raw text: the label part goes to
  \<^verbatim>\<open>setNameAndLength\<close>, and the tag pairs are the pieces that
  \<^verbatim>\<open>setNhxAttrs\<close> iterates over (none when there is no marker or nothing
  follows it).
\<close>

definition labelPart :: "string \<Rightarrow> string" where
  "labelPart t =
     (let text = stripFinalBracket t in
      if indexOf text ''[&&NHX:'' \<noteq> - 1 then
        (case split text ''[&&NHX:'' of [] \<Rightarrow> [] | p0 # _ \<Rightarrow> p0)
      else text)"

definition nhxPairs :: "string \<Rightarrow> string list" where
  "nhxPairs t =
     (let text = stripFinalBracket t in
      if indexOf text ''[&&NHX:'' \<noteq> - 1 then
        (case split text ''[&&NHX:'' of
           _ # p1 # _ \<Rightarrow> if p1 = [] then [] else split p1 '':''
         | _ \<Rightarrow> [])
      else [])"

text \<open>
  Key and value of one tag pair: the text before the first equals sign, and the text
  between the first and the second one (up to the end if there is no second one);
  a pair without an equals sign has no value.
\<close>

definition tagKey :: "string \<Rightarrow> string" where
  "tagKey kv = takeWhile (\<lambda>c. c \<noteq> CHR ''='') kv"

definition tagValue :: "string \<Rightarrow> jsval" where
  "tagValue kv =
     (case dropWhile (\<lambda>c. c \<noteq> CHR ''='') kv of
        [] \<Rightarrow> Undefined
      | _ # rest \<Rightarrow> Str (takeWhile (\<lambda>c. c \<noteq> CHR ''='') rest))"

text \<open>The pairs of a comment that carry a given key, in order.\<close>

definition pairsWithKey :: "string \<Rightarrow> string \<Rightarrow> string list" where
  "pairsWithKey k t = filter (\<lambda>kv. tagKey kv = k) (nhxPairs t)"

text \<open>
  A text starts with a number when, after its leading white space and an optional
  sign, there is a decimal digit, a point followed by a decimal digit, or the word
  \<^verbatim>\<open>Infinity\<close>.
\<close>

definition starts_unsigned_number :: "string \<Rightarrow> bool" where
  "starts_unsigned_number u \<longleftrightarrow>
     (case u of
        [] \<Rightarrow> False
      | c # r \<Rightarrow> isDecimalDigit c \<or>
                 (c = CHR ''.'' \<and> (case r of [] \<Rightarrow> False | d # _ \<Rightarrow> isDecimalDigit d))) \<or>
     prefix ''Infinity'' u"

definition starts_number :: "string \<Rightarrow> bool" where
  "starts_number s \<longleftrightarrow>
     (case dropWhile isWhiteSpace s of
        [] \<Rightarrow> False
      | c # r \<Rightarrow> if c = CHR ''+'' \<or> c = CHR ''-'' then starts_unsigned_number r
                 else starts_unsigned_number (c # r))"

text \<open>A text without parentheses and brackets.\<close>

definition bracket_free :: "string \<Rightarrow> bool" where
  "bracket_free s \<longleftrightarrow> set s \<inter> set ''()[]'' = {}"

text \<open>
  A text that can stand as the key or the value of a tag pair without being cut: no
  parenthesis, bracket, colon or equals sign. Commas and blanks are allowed.
\<close>

definition tag_text :: "string \<Rightarrow> bool" where
  "tag_text s \<longleftrightarrow> set s \<inter> set ''()[]:='' = {}"

text \<open>
  The shape of the store that the scanner maintains: children are allocated after
  their parent, and every link points into the store, a \<^verbatim>\<open>parent\<close> link to an
  object that has a \<^verbatim>\<open>branchset\<close>.
\<close>

definition heap_ok :: "rawobj list \<Rightarrow> bool" where
  "heap_ok h \<longleftrightarrow>
     (\<forall>a < length h.
        (\<forall>cs. branchset (h ! a) = Some cs \<longrightarrow> (\<forall>c \<in> set cs. a < c \<and> c < length h)) \<and>
        (\<forall>p. parent (h ! a) = Some p \<longrightarrow> p < length h \<and> branchset (h ! p) \<noteq> None))"

definition state_ok :: "tstate \<Rightarrow> bool" where
  "state_ok st \<longleftrightarrow>
     heap_ok (heap st) \<and>
     (\<forall>c. current st = Some c \<longrightarrow> c < length (heap st) \<and> branchset (heap st ! c) \<noteq> None) \<and>
     (\<forall>p. prevNode st = Some p \<longrightarrow> p < length (heap st))"

section \<open>Properties\<close>

subsection \<open>String primitives\<close>

lemma split_nonempty: "sep \<noteq> [] \<Longrightarrow> split s sep \<noteq> []"
  by (induction s sep rule: split.induct) (auto split: list.splits)

lemma indexOf_ge: "- 1 \<le> indexOf s sub"
  by (induction s sub rule: indexOf.induct) (auto simp: Let_def)

lemma indexOf_split:
  "sep \<noteq> [] \<Longrightarrow> indexOf s sep \<noteq> - 1 \<Longrightarrow> \<exists>p0 p1 ps. split s sep = p0 # p1 # ps"
proof (induction s sep rule: split.induct)
  case (1 sep)
  then show ?case by simp
next
  case (2 c cs sep)
  show ?case
  proof (cases "prefix sep (c # cs)")
    case True
    with "2.prems"(1) split_nonempty [of sep "drop (length sep) (c # cs)"]
    show ?thesis by (cases "split (drop (length sep) (c # cs)) sep") auto
  next
    case False
    with "2.prems" have "indexOf cs sep \<noteq> - 1" by (auto simp: Let_def split: if_splits)
    with "2.IH"(3) "2.prems"(1) False obtain p0 p1 ps where "split cs sep = p0 # p1 # ps"
      by blast
    with False "2.prems"(1) show ?thesis by simp
  qed
qed

lemma split_char_Cons:
  "split (x # xs) [c] =
     (if x = c then [] # split xs [c]
      else (case split xs [c] of [] \<Rightarrow> [[x]] | p # ps \<Rightarrow> (x # p) # ps))"
  by simp

lemma split_char_unfold:
  "split s [c] =
     (case dropWhile (\<lambda>x. x \<noteq> c) s of
        [] \<Rightarrow> [s]
      | _ # rest \<Rightarrow> takeWhile (\<lambda>x. x \<noteq> c) s # split rest [c])"
proof (induction s)
  case Nil
  show ?case by simp
next
  case (Cons x xs)
  show ?case
  proof (cases "x = c")
    case True
    then show ?thesis by simp
  next
    case False
    show ?thesis
    proof (cases "dropWhile (\<lambda>x. x \<noteq> c) xs")
      case Nil
      with Cons have "split xs [c] = [xs]" by simp
      with False Nil show ?thesis
        by (simp add: split_char_Cons del: split.simps dropWhile_eq_Nil_conv)
    next
      case (Cons y rest)
      with Cons.IH have "split xs [c] = takeWhile (\<lambda>x. x \<noteq> c) xs # split rest [c]" by simp
      with False Cons show ?thesis by (simp add: split_char_Cons del: split.simps)
    qed
  qed
qed

lemma hd_split_char: "hd (split s [c]) = takeWhile (\<lambda>x. x \<noteq> c) s"
proof (cases "dropWhile (\<lambda>x. x \<noteq> c) s")
  case Nil
  then have "takeWhile (\<lambda>x. x \<noteq> c) s = s"
    by (metis takeWhile_dropWhile_id append_Nil2)
  with Nil show ?thesis
    by (subst split_char_unfold)
      (simp del: split.simps dropWhile_eq_Nil_conv takeWhile_eq_all_conv)
next
  case (Cons y rest)
  then show ?thesis by (subst split_char_unfold) (simp del: split.simps)
qed

lemma indexOf_char: "indexOf s [c] \<noteq> - 1 \<longleftrightarrow> c \<in> set s"
proof (induction s)
  case Nil
  show ?case by simp
next
  case (Cons x xs)
  from indexOf_ge [of xs "[c]"] have "indexOf xs [c] + 1 \<noteq> - 1" by simp
  with Cons show ?case by (auto simp: Let_def)
qed


subsection \<open>The normalizer\<close>

lemma replaceCloseParen_Nil_iff: "replaceCloseParen s = [] \<longleftrightarrow> s = []"
  by (cases s) (auto simp: replaceCloseParen_def)

lemma replaceCloseParen_Cons:
  "replaceCloseParen (c # cs) = (if c = CHR '')'' then '',)'' else [c]) @ replaceCloseParen cs"
  by (simp add: replaceCloseParen_def)

lemma length_replaceCloseParen:
  "length (replaceCloseParen s) = length s + length (filter (\<lambda>c. c = CHR '')'') s)"
  by (induction s) (auto simp: replaceCloseParen_Cons replaceCloseParen_def)

lemma length_replaceFinalSemicolon: "length (replaceFinalSemicolon s) = length s"
  by (cases s rule: rev_cases) (auto simp: replaceFinalSemicolon_def)

lemma filter_replaceCloseParen:
  "filter (\<lambda>c. c = CHR '')'') (replaceCloseParen s) = filter (\<lambda>c. c = CHR '')'') s"
  by (induction s) (auto simp: replaceCloseParen_Cons replaceCloseParen_def)

lemma filter_replaceFinalSemicolon:
  "filter (\<lambda>c. c = CHR '')'') (replaceFinalSemicolon s) = filter (\<lambda>c. c = CHR '')'') s"
  by (cases s rule: rev_cases) (auto simp: replaceFinalSemicolon_def)

lemma length_appendBoundaries:
  "length (appendBoundaries s) = length s + length (filter (\<lambda>c. c = CHR '')'') s)"
  by (simp add: appendBoundaries_def length_replaceFinalSemicolon length_replaceCloseParen)

lemma filter_appendBoundaries:
  "filter (\<lambda>c. c = CHR '')'') (appendBoundaries s) = filter (\<lambda>c. c = CHR '')'') s"
  by (simp add: appendBoundaries_def filter_replaceFinalSemicolon filter_replaceCloseParen)

text \<open>
  Claim C2. For every input string, \<^verbatim>\<open>appendBoundaries\<close> yields the input with one
  comma inserted immediately before every closing parenthesis and with a semicolon
  that is the last character replaced by a comma; every other character is kept, in
  the same order. This is the function the specification describes.
\<close>

theorem appendBoundaries_refines_spec: "appendBoundaries s = normalized_per_spec s"
proof (induction s rule: normalized_per_spec.induct)
  case 1
  show ?case by (simp add: appendBoundaries_def replaceFinalSemicolon_def replaceCloseParen_def)
next
  case (2 c)
  show ?case by (simp add: appendBoundaries_def replaceFinalSemicolon_def replaceCloseParen_def)
next
  case (3 c d ds)
  let ?r = "replaceCloseParen (d # ds)"
  have ne: "?r \<noteq> []" by (simp add: replaceCloseParen_Nil_iff)
  have "replaceFinalSemicolon ((if c = CHR '')'' then '',)'' else [c]) @ ?r)
        = (if c = CHR '')'' then '',)'' else [c]) @ replaceFinalSemicolon ?r"
    using ne by (simp add: replaceFinalSemicolon_def butlast_append)
  with 3 show ?case
    by (simp add: appendBoundaries_def replaceCloseParen_Cons [of c])
qed

text \<open>
  Claim C8. The normalizer is not idempotent: on every string that contains a closing
  parenthesis, applying it to its own output gives a different string than applying
  it once (a second comma is inserted before each closing parenthesis).
\<close>

theorem appendBoundaries_not_idempotent:
  "CHR '')'' \<in> set s \<Longrightarrow> appendBoundaries (appendBoundaries s) \<noteq> appendBoundaries s"
proof
  assume mem: "CHR '')'' \<in> set s"
    and eq: "appendBoundaries (appendBoundaries s) = appendBoundaries s"
  from mem have "filter (\<lambda>c. c = CHR '')'') s \<noteq> []"
    by (simp add: filter_empty_conv)
  then have pos: "0 < length (filter (\<lambda>c. c = CHR '')'') s)" by simp
  have "length (appendBoundaries (appendBoundaries s))
        = length (appendBoundaries s) + length (filter (\<lambda>c. c = CHR '')'') s)"
    by (simp add: length_appendBoundaries [of "appendBoundaries s"] filter_appendBoundaries)
  with eq pos show False by simp
qed

theorem appendBoundaries_not_idempotent_witness:
  "CHR '')'' \<in> set ''(A)B;'' \<and>
   appendBoundaries ''(A)B;'' = ''(A,)B,'' \<and>
   appendBoundaries (appendBoundaries ''(A)B;'') \<noteq> appendBoundaries ''(A)B;''"
  using appendBoundaries_not_idempotent [of "''(A)B;''"]
  by (simp add: appendBoundaries_def replaceFinalSemicolon_def replaceCloseParen_def)

subsection \<open>Tag assignment\<close>

lemma map_of_assign:
  "map_of (assign node k v) k' =
     (if k = ''__proto__'' then map_of node k'
      else if k' = k then Some v else map_of node k')"
  by (simp add: assign_def update_conv')

lemma setNhxAttr_tag: "setNhxAttr node kv = assign node (tagKey kv) (tagValue kv)"
proof (cases "dropWhile (\<lambda>c. c \<noteq> CHR ''='') kv")
  case Nil
  then have tw: "takeWhile (\<lambda>c. c \<noteq> CHR ''='') kv = kv"
    by (metis takeWhile_dropWhile_id append_Nil2)
  have "split kv ''='' = [kv]"
    using Nil by (subst split_char_unfold) (simp del: split.simps dropWhile_eq_Nil_conv)
  with Nil tw show ?thesis
    by (simp add: setNhxAttr_def element_def tagKey_def tagValue_def
             del: split.simps dropWhile_eq_Nil_conv takeWhile_eq_all_conv)
next
  case (Cons y rest)
  have "split kv ''='' = takeWhile (\<lambda>c. c \<noteq> CHR ''='') kv # split rest ''=''"
    using Cons by (subst split_char_unfold) (simp del: split.simps)
  moreover have "split rest ''='' \<noteq> []" by (rule split_nonempty) simp
  moreover have "hd (split rest ''='') = takeWhile (\<lambda>c. c \<noteq> CHR ''='') rest"
    by (rule hd_split_char)
  ultimately show ?thesis
    using Cons
    by (cases "split rest ''=''")
       (simp_all add: setNhxAttr_def element_def tagKey_def tagValue_def del: split.simps)
qed

lemma map_of_foldl_setNhxAttr:
  "map_of (foldl setNhxAttr node kvs) k =
     (if k = ''__proto__'' \<or> filter (\<lambda>kv. tagKey kv = k) kvs = [] then map_of node k
      else Some (tagValue (last (filter (\<lambda>kv. tagKey kv = k) kvs))))"
proof (induction kvs rule: rev_induct)
  case Nil
  show ?case by simp
next
  case (snoc kv kvs)
  have step: "map_of (foldl setNhxAttr node (kvs @ [kv])) k =
        (if tagKey kv = ''__proto__'' then map_of (foldl setNhxAttr node kvs) k
         else if k = tagKey kv then Some (tagValue kv)
         else map_of (foldl setNhxAttr node kvs) k)"
    by (simp add: map_of_assign setNhxAttr_tag [of _ kv])
  show ?case
  proof (cases "k = ''__proto__''")
    case True
    with snoc.IH show ?thesis unfolding step by simp
  next
    case False
    with snoc.IH show ?thesis unfolding step by auto
  qed
qed

lemma setNhxAttrs_pairs:
  "setNhxAttrs node p1 = foldl setNhxAttr node (if p1 = [] then [] else split p1 '':'')"
  by (simp add: setNhxAttrs_def foreach_def del: split.simps)

lemma tagValue_not_Num: "tagValue kv \<noteq> Num x"
  by (simp add: tagValue_def split: list.splits)

subsection \<open>Name and length\<close>

lemma map_of_setNameAndLength_other:
  "k \<noteq> ''name'' \<Longrightarrow> k \<noteq> ''length'' \<Longrightarrow> map_of (setNameAndLength node str) k = map_of node k"
  by (simp add: setNameAndLength_def update_conv' Let_def del: split.simps)

lemma split_at_first_char:
  "c \<notin> set nm \<Longrightarrow> split (nm @ c # rest) [c] = nm # split rest [c]"
proof -
  assume "c \<notin> set nm"
  then have "dropWhile (\<lambda>x. x \<noteq> c) (nm @ c # rest) = c # rest"
    and "takeWhile (\<lambda>x. x \<noteq> c) (nm @ c # rest) = nm"
    by (induction nm) auto
  then show ?thesis
    by (subst split_char_unfold) (simp del: split.simps)
qed

lemma not_digit_chars [simp]:
  "\<not> isDecimalDigit CHR ''.''" "\<not> isDecimalDigit CHR ''I''"
  "\<not> isDecimalDigit CHR ''+''" "\<not> isDecimalDigit CHR ''-''"
  by (simp_all add: isDecimalDigit_def)

lemma takeWhile_Nil_hd: "takeWhile P u \<noteq> [] \<Longrightarrow> \<exists>c r. u = c # r \<and> P c"
  by (cases u) (auto split: if_splits)

lemma unsigned_literal_starts:
  assumes "isStrUnsignedDecimalLiteral u" shows "starts_unsigned_number u"
proof (cases "u = ''Infinity''")
  case True
  then show ?thesis by (simp add: starts_unsigned_number_def)
next
  case False
  let ?ip = "takeWhile isDecimalDigit u"
  show ?thesis
  proof (cases "?ip = []")
    case ne: False
    then obtain c r where "u = c # r" "isDecimalDigit c" using takeWhile_Nil_hd by blast
    then show ?thesis by (simp add: starts_unsigned_number_def)
  next
    case True
    then have dw: "dropWhile isDecimalDigit u = u"
      by (metis takeWhile_dropWhile_id append_Nil)
    from assms False True dw obtain r' where u: "u = CHR ''.'' # r'"
      and fp: "takeWhile isDecimalDigit r' \<noteq> []"
      by (cases u) (auto simp: isStrUnsignedDecimalLiteral_def Let_def split: if_splits)
    from fp obtain d r'' where "r' = d # r''" "isDecimalDigit d" using takeWhile_Nil_hd by blast
    with u show ?thesis by (simp add: starts_unsigned_number_def)
  qed
qed

lemma starts_unsigned_mono:
  assumes "prefix p u" and "starts_unsigned_number p" shows "starts_unsigned_number u"
proof -
  from assms(1) obtain z where u: "u = p @ z" by (auto simp: prefix_def)
  from assms(2) consider
      (digit) c r where "p = c # r" "isDecimalDigit c"
    | (dot) d r where "p = CHR ''.'' # d # r" "isDecimalDigit d"
    | (inf) "prefix ''Infinity'' p"
    by (auto simp: starts_unsigned_number_def split: list.splits)
  then show ?thesis
  proof cases
    case digit
    with u show ?thesis by (simp add: starts_unsigned_number_def)
  next
    case dot
    with u show ?thesis by (simp add: starts_unsigned_number_def)
  next
    case inf
    from inf assms(1) have "prefix ''Infinity'' u" by (rule prefix_order.trans)
    then show ?thesis by (simp add: starts_unsigned_number_def)
  qed
qed

lemma starts_unsigned_literal:
  assumes "starts_unsigned_number u"
  shows "\<exists>p. prefix p u \<and> p \<noteq> [] \<and> isStrUnsignedDecimalLiteral p \<and>
           hd p \<noteq> CHR ''+'' \<and> hd p \<noteq> CHR ''-''"
proof -
  from assms consider
      (digit) c r where "u = c # r" "isDecimalDigit c"
    | (dot) d r where "u = CHR ''.'' # d # r" "isDecimalDigit d"
    | (inf) "prefix ''Infinity'' u"
    by (auto simp: starts_unsigned_number_def split: list.splits)
  then show ?thesis
  proof cases
    case digit
    then have "isStrUnsignedDecimalLiteral [c]"
      by (simp add: isStrUnsignedDecimalLiteral_def)
    moreover from digit have "c \<noteq> CHR ''+''" "c \<noteq> CHR ''-''" by auto
    ultimately show ?thesis using digit by (intro exI [of _ "[c]"]) simp
  next
    case dot
    then have "isStrUnsignedDecimalLiteral [CHR ''.'', d]"
      by (simp add: isStrUnsignedDecimalLiteral_def)
    then show ?thesis using dot by (intro exI [of _ "[CHR ''.'', d]"]) simp
  next
    case inf
    have "isStrUnsignedDecimalLiteral ''Infinity''"
      by (simp add: isStrUnsignedDecimalLiteral_def)
    then show ?thesis using inf by (intro exI [of _ "''Infinity''"]) simp
  qed
qed

lemma starts_number_iff:
  "starts_number s \<longleftrightarrow>
     (\<exists>p. prefix p (dropWhile isWhiteSpace s) \<and> isStrDecimalLiteral p)"
proof
  assume sn: "starts_number s"
  then obtain c r where t: "dropWhile isWhiteSpace s = c # r"
    by (cases "dropWhile isWhiteSpace s") (simp_all add: starts_number_def)
  show "\<exists>p. prefix p (dropWhile isWhiteSpace s) \<and> isStrDecimalLiteral p"
  proof (cases "c = CHR ''+'' \<or> c = CHR ''-''")
    case True
    with sn t have "starts_unsigned_number r" by (simp add: starts_number_def)
    from starts_unsigned_literal [OF this] obtain p
      where "prefix p r" "isStrUnsignedDecimalLiteral p" by blast
    with True t have "prefix (c # p) (dropWhile isWhiteSpace s) \<and> isStrDecimalLiteral (c # p)"
      by (simp add: isStrDecimalLiteral_def)
    then show ?thesis by blast
  next
    case False
    with sn t have "starts_unsigned_number (c # r)" by (simp add: starts_number_def)
    from starts_unsigned_literal [OF this] obtain p
      where p: "prefix p (c # r)" "p \<noteq> []" "isStrUnsignedDecimalLiteral p"
        "hd p \<noteq> CHR ''+''" "hd p \<noteq> CHR ''-''" by blast
    then have "isStrDecimalLiteral p"
      by (cases p) (simp_all add: isStrDecimalLiteral_def)
    with p(1) t show ?thesis by auto
  qed
next
  assume "\<exists>p. prefix p (dropWhile isWhiteSpace s) \<and> isStrDecimalLiteral p"
  then obtain p where pre: "prefix p (dropWhile isWhiteSpace s)" and lit: "isStrDecimalLiteral p"
    by blast
  from lit obtain c q where p: "p = c # q" by (cases p) (simp_all add: isStrDecimalLiteral_def)
  with pre obtain r where t: "dropWhile isWhiteSpace s = c # r" and qr: "prefix q r"
    by (cases "dropWhile isWhiteSpace s") (auto simp del: dropWhile_eq_Nil_conv)
  show "starts_number s"
  proof (cases "c = CHR ''+'' \<or> c = CHR ''-''")
    case True
    with lit p have "isStrUnsignedDecimalLiteral q" by (simp add: isStrDecimalLiteral_def)
    then have "starts_unsigned_number q" by (rule unsigned_literal_starts)
    with qr have "starts_unsigned_number r" by (rule starts_unsigned_mono)
    with True t show ?thesis by (simp add: starts_number_def)
  next
    case False
    with lit p have "isStrUnsignedDecimalLiteral (c # q)" by (simp add: isStrDecimalLiteral_def)
    then have "starts_unsigned_number (c # q)" by (rule unsigned_literal_starts)
    moreover from qr have "prefix (c # q) (c # r)" by simp
    ultimately have "starts_unsigned_number (c # r)" using starts_unsigned_mono by blast
    with False t show ?thesis by (simp add: starts_number_def)
  qed
qed

lemma StringNumericValue_not_NaN: "StringNumericValue p \<noteq> NaN"
  by (simp add: StringNumericValue_def Let_def)

lemma parseFloat_NaN_iff: "parseFloat s = NaN \<longleftrightarrow> \<not> starts_number s"
proof -
  let ?ps = "filter isStrDecimalLiteral (rev (prefixes (dropWhile isWhiteSpace s)))"
  have "parseFloat s = NaN \<longleftrightarrow> ?ps = []"
    by (cases ?ps) (simp_all add: parseFloat_def StringNumericValue_not_NaN)
  also have "\<dots> \<longleftrightarrow> \<not> (\<exists>p. prefix p (dropWhile isWhiteSpace s) \<and> isStrDecimalLiteral p)"
    by (auto simp: filter_empty_conv)
  finally show ?thesis by (simp add: starts_number_iff)
qed

lemma takeWhile_stop:
  "c \<notin> set num \<Longrightarrow> sfx = [] \<or> hd sfx = c \<Longrightarrow> takeWhile (\<lambda>x. x \<noteq> c) (num @ sfx) = num"
  by (induction num) (cases sfx; auto)+

lemma setNameAndLength_colon:
  assumes "CHR '':'' \<notin> set nm" and "CHR '':'' \<notin> set num"
    and "sfx = [] \<or> hd sfx = CHR '':''"
  shows "map_of (setNameAndLength node (nm @ CHR '':'' # num @ sfx)) ''length''
           = Some (Num (parseFloat num))"
proof -
  have idx: "indexOf (nm @ CHR '':'' # num @ sfx) '':'' \<noteq> - 1"
    by (simp add: indexOf_char)
  have parts: "split (nm @ CHR '':'' # num @ sfx) '':'' = nm # split (num @ sfx) '':''"
    using assms(1) by (rule split_at_first_char)
  have ne: "split (num @ sfx) '':'' \<noteq> []" by (rule split_nonempty) simp
  have "hd (split (num @ sfx) '':'') = num"
    using takeWhile_stop [OF assms(2,3)] by (simp add: hd_split_char del: split.simps)
  with ne have "parseFloatOf (element (nm # split (num @ sfx) '':'') 1) = parseFloat num"
    by (cases "split (num @ sfx) '':''") (simp_all add: parseFloatOf_def element_def del: split.simps)
  with idx parts show ?thesis
    by (simp add: setNameAndLength_def update_conv' Let_def del: split.simps indexOf.simps)
qed

subsection \<open>Translation never raises\<close>

lemma sequence_all_Inr: "(\<forall>r \<in> set rs. \<exists>x. r = Inr x) \<Longrightarrow> \<exists>xs. sequence rs = Inr xs"
  by (induction rs) auto

lemma translate_text:
  "(let text = stripFinalBracket t in
    if indexOf text ''[&&NHX:'' \<noteq> - 1 then
      (case split text ''[&&NHX:'' of
         p0 # p1 # _ \<Rightarrow> Inr (Obj (setNhxAttrs (setNameAndLength node p0) p1))
       | _ \<Rightarrow> Inl TypeError)
    else Inr (Obj (setNameAndLength node text)))
   = (Inr (Obj (foldl setNhxAttr (setNameAndLength node (labelPart t)) (nhxPairs t))) :: error + jsval)"
proof (cases "indexOf (stripFinalBracket t) ''[&&NHX:'' \<noteq> - 1")
  case True
  then obtain p0 p1 ps where "split (stripFinalBracket t) ''[&&NHX:'' = p0 # p1 # ps"
    using indexOf_split [of "''[&&NHX:''" "stripFinalBracket t"] by auto
  with True show ?thesis
    by (simp add: labelPart_def nhxPairs_def setNhxAttrs_pairs Let_def del: split.simps)
next
  case False
  then show ?thesis
    by (simp add: labelPart_def nhxPairs_def Let_def del: split.simps)
qed

lemma translateNode_children:
  "(\<And>c. c \<in> set cs \<Longrightarrow> \<exists>v. translateNode c = Inr v) \<Longrightarrow>
   \<exists>ts. sequence (map translateNode cs) = Inr ts"
  by (rule sequence_all_Inr) auto

lemma translateNode_total: "\<exists>node. translateNode r = Inr (Obj node)"
proof (induction r rule: translateNode.induct)
  case (1 bs par tx)
  show ?case
  proof (cases bs)
    case None
    then show ?thesis
      by (cases tx) (simp_all add: translate_text del: split.simps)
  next
    case (Some cs)
    have "\<And>c. c \<in> set cs \<Longrightarrow> \<exists>v. translateNode c = Inr v"
      using "1.IH" [OF Some] by blast
    then obtain ts where "sequence (map translateNode cs) = Inr ts"
      using translateNode_children by blast
    with Some show ?thesis
      by (cases tx) (simp_all add: translate_text del: split.simps)
  qed
qed

lemma translateNode_shape:
  "\<exists>node0. fst ` set node0 \<subseteq> {''branchset'', ''parent''} \<and>
     translateNode (RawNode bs par (Some t)) =
       Inr (Obj (foldl setNhxAttr (setNameAndLength node0 (labelPart t)) (nhxPairs t)))"
proof (cases bs)
  case None
  show ?thesis
    by (rule exI [of _ "case par of None \<Rightarrow> [] | Some p \<Rightarrow> [(''parent'', Ref p)]"])
       (auto simp: None translate_text simp del: split.simps split: option.splits)
next
  case (Some cs)
  have "\<And>c. c \<in> set cs \<Longrightarrow> \<exists>v. translateNode c = Inr v"
    using translateNode_total by blast
  then obtain ts where "sequence (map translateNode cs) = Inr ts"
    using translateNode_children by blast
  then show ?thesis
    by (intro exI [of _ "[(''branchset'', Arr ts)] @
                          (case par of None \<Rightarrow> [] | Some p \<Rightarrow> [(''parent'', Ref p)])"])
       (auto simp: Some translate_text simp del: split.simps split: option.splits)
qed

subsection \<open>What a translated node holds\<close>

lemma translateNode_lookup:
  "\<exists>node0 res. fst ` set node0 \<subseteq> {''branchset'', ''parent''} \<and>
     translateNode (RawNode bs par (Some t)) = Inr (Obj res) \<and>
     (\<forall>k. map_of res k =
        (if k = ''__proto__'' \<or> pairsWithKey k t = []
         then map_of (setNameAndLength node0 (labelPart t)) k
         else Some (tagValue (last (pairsWithKey k t)))))"
proof -
  obtain node0 where keys: "fst ` set node0 \<subseteq> {''branchset'', ''parent''}"
    and res: "translateNode (RawNode bs par (Some t)) =
       Inr (Obj (foldl setNhxAttr (setNameAndLength node0 (labelPart t)) (nhxPairs t)))"
    using translateNode_shape by blast
  show ?thesis
    by (intro exI [of _ node0]
              exI [of _ "foldl setNhxAttr (setNameAndLength node0 (labelPart t)) (nhxPairs t)"])
       (simp add: keys res map_of_foldl_setNhxAttr pairsWithKey_def del: translateNode.simps)
qed

lemma tag_without_equals: "CHR ''='' \<notin> set kv \<Longrightarrow> tagKey kv = kv \<and> tagValue kv = Undefined"
proof -
  assume "CHR ''='' \<notin> set kv"
  then have "\<forall>c \<in> set kv. c \<noteq> CHR ''=''" by auto
  then have "takeWhile (\<lambda>c. c \<noteq> CHR ''='') kv = kv"
    and "dropWhile (\<lambda>c. c \<noteq> CHR ''='') kv = []"
    by simp_all
  then show ?thesis
    by (simp add: tagKey_def tagValue_def del: takeWhile_eq_all_conv dropWhile_eq_Nil_conv)
qed

subsection \<open>The example of the format description\<close>

text \<open>
  Claim C1. Parsing \<^verbatim>\<open>(A:0.1,B:0.2,(C:0.3,D:0.4)E:0.5)F;\<close> returns a root named
  \<^verbatim>\<open>F\<close> with length 0 whose children are, in order, A with length 0.1, B with
  length 0.2 and E with length 0.5, and E has exactly the two children C with length 0.3
  and D with length 0.4.
\<close>

theorem parse_wikipedia_example:
  "parse ''(A:0.1,B:0.2,(C:0.3,D:0.4)E:0.5)F;'' =
     Inr (Obj [(''branchset'',
                Arr [Obj [(''name'', Str ''A''), (''length'', Num (Finite 0.1))],
                     Obj [(''name'', Str ''B''), (''length'', Num (Finite 0.2))],
                     Obj [(''branchset'',
                           Arr [Obj [(''name'', Str ''C''), (''length'', Num (Finite 0.3))],
                                Obj [(''name'', Str ''D''), (''length'', Num (Finite 0.4))]]),
                          (''name'', Str ''E''), (''length'', Num (Finite 0.5))]]),
               (''name'', Str ''F''), (''length'', Num (Finite 0))])"
  by code_simp

subsection \<open>Tag values\<close>

text \<open>
  Claim C5, as stated, fails: the value is not everything after the first equals sign.
  For the pair \<^verbatim>\<open>a=b=c\<close> the stored value is \<^verbatim>\<open>b\<close>, not \<^verbatim>\<open>b=c\<close>.
\<close>

theorem tag_value_after_second_equals_dropped:
  "parse ''X[&&NHX:a=b=c];'' =
     Inr (Obj [(''name'', Str ''X''), (''length'', Num (Finite 0)), (''a'', Str ''b'')]) \<and>
   setNhxAttr [] ''a=b=c'' = [(''a'', Str ''b'')] \<and>
   setNhxAttr [] ''a=b=c'' \<noteq> [(''a'', Str ''b=c'')]"
  by code_simp

text \<open>
  Claim C5, amended. Every tag pair is split at every equals sign: the text before the
  first one is the key of the assignment, and the text between the first and the second
  one (up to the end when there is no second one) is the assigned value; a pair without
  an equals sign assigns \<^verbatim>\<open>undefined\<close>. What follows a second equals sign is
  dropped.
\<close>

theorem tag_pair_split_at_every_equals:
  "setNhxAttr node kv =
     assign node (takeWhile (\<lambda>c. c \<noteq> CHR ''='') kv)
       (case dropWhile (\<lambda>c. c \<noteq> CHR ''='') kv of
          [] \<Rightarrow> Undefined
        | _ # rest \<Rightarrow> Str (takeWhile (\<lambda>c. c \<noteq> CHR ''='') rest))"
  using setNhxAttr_tag [of node kv] by (simp add: tagKey_def tagValue_def)



text \<open>
  Claim C10, as stated, fails for the pair \<^verbatim>\<open>__proto__\<close>: it has no equals sign,
  and yet the node gets no such key.
\<close>

theorem proto_pair_adds_no_key:
  "CHR ''='' \<notin> set ''__proto__'' \<and>
   nhxPairs ''A[&&NHX:__proto__]'' = [''__proto__''] \<and>
   parse ''A[&&NHX:__proto__];'' =
     Inr (Obj [(''name'', Str ''A''), (''length'', Num (Finite 0))])"
  by code_simp

text \<open>
  Claim C10, amended. For every tag pair without an equals sign, other than the pair
  \<^verbatim>\<open>__proto__\<close>, translation does not raise and does not skip the pair: the pair's
  assignment makes the whole pair text a key of the node with the value
  \<^verbatim>\<open>undefined\<close>, the key is on the translated node, and its value there is
  \<^verbatim>\<open>undefined\<close> when this pair is the last one with that key. The pair
  \<^verbatim>\<open>__proto__\<close> leaves the node unchanged.
\<close>

theorem pair_without_equals_becomes_key:
  assumes "kv \<in> set (nhxPairs t)" and "CHR ''='' \<notin> set kv" and "kv \<noteq> ''__proto__''"
  shows "map_of (setNhxAttr node kv) kv = Some Undefined \<and>
         (\<exists>res. translateNode (RawNode bs par (Some t)) = Inr (Obj res) \<and>
                kv \<in> dom (map_of res) \<and>
                (last (pairsWithKey kv t) = kv \<longrightarrow> map_of res kv = Some Undefined)) \<and>
         setNhxAttr node ''__proto__'' = node"
proof -
  from assms(2) have tk: "tagKey kv = kv" and tv: "tagValue kv = Undefined"
    using tag_without_equals by auto
  from tk assms(1) have ne: "pairsWithKey kv t \<noteq> []"
    by (auto simp: pairsWithKey_def filter_empty_conv)
  have 1: "map_of (setNhxAttr node kv) kv = Some Undefined"
    using assms(3) by (simp add: setNhxAttr_tag tk tv map_of_assign)
  have 3: "setNhxAttr node ''__proto__'' = node"
    by (simp add: setNhxAttr_tag assign_def tagKey_def)
  from translateNode_lookup [of bs par t] ne assms(3)
  have 2: "\<exists>res. translateNode (RawNode bs par (Some t)) = Inr (Obj res) \<and>
                kv \<in> dom (map_of res) \<and>
                (last (pairsWithKey kv t) = kv \<longrightarrow> map_of res kv = Some Undefined)"
    by (auto simp: tv simp del: translateNode.simps)
  from 1 2 3 show ?thesis by blast
qed

theorem pair_without_equals_becomes_key_witness:
  "''flag'' \<in> set (nhxPairs ''A[&&NHX:gn=10:flag]'') \<and> CHR ''='' \<notin> set ''flag'' \<and>
   ''flag'' \<noteq> ''__proto__'' \<and>
   map_of (setNhxAttr [] ''flag'') ''flag'' = Some Undefined \<and>
   (\<exists>res. translateNode (RawNode None None (Some ''A[&&NHX:gn=10:flag]'')) = Inr (Obj res) \<and>
          ''flag'' \<in> dom (map_of res) \<and> map_of res ''flag'' = Some Undefined)"
proof -
  have p: "nhxPairs ''A[&&NHX:gn=10:flag]'' = [''gn=10'', ''flag'']" by code_simp
  have q: "pairsWithKey ''flag'' ''A[&&NHX:gn=10:flag]'' = [''flag'']" by code_simp
  from pair_without_equals_becomes_key [of "''flag''" "''A[&&NHX:gn=10:flag]''" "[]" None None]
  show ?thesis
    by (simp add: p q del: translateNode.simps)
qed

subsection \<open>Lengths that are not numbers\<close>

text \<open>
  Claim C6, as stated, fails: a text after the colon that is not a number, but starts
  with one, does not give NaN. \<^verbatim>\<open>parseFloat\<close> reads the longest numeric prefix:
  \<^verbatim>\<open>12abc\<close> gives the length 12 and \<^verbatim>\<open>0x1F\<close> the length 0. Moreover a tag named
  \<^verbatim>\<open>length\<close> replaces the NaN of a non-numeric length by its own raw string.
\<close>

theorem non_numeric_text_with_number_prefix:
  "parse ''(A:12abc,B:0x1F)F;'' =
     Inr (Obj [(''branchset'',
                Arr [Obj [(''name'', Str ''A''), (''length'', Num (Finite 12))],
                     Obj [(''name'', Str ''B''), (''length'', Num (Finite 0))]]),
               (''name'', Str ''F''), (''length'', Num (Finite 0))]) \<and>
   parse ''A:x[&&NHX:length=9];'' =
     Inr (Obj [(''name'', Str ''A''), (''length'', Str ''9'')])"
  by code_simp

text \<open>
  Claim C6, amended. When the label part of a node's text has a colon, the length set
  by \<^verbatim>\<open>setNameAndLength\<close> is \<^verbatim>\<open>parseFloat\<close> of the text between the first colon
  and the next one (or the end). It is NaN exactly when that text, after its leading
  white space and an optional sign, does not start with a digit, with a point followed
  by a digit, or with \<^verbatim>\<open>Infinity\<close>. Translating the node does not raise; the length of
  the translated node is that value, unless the comment has a tag named \<^verbatim>\<open>length\<close>,
  whose last value then replaces it; and the translation of any tree returns a node.
\<close>

theorem length_is_NaN_iff_no_number_prefix:
  assumes "labelPart t = nm @ CHR '':'' # num @ sfx" and "CHR '':'' \<notin> set nm"
    and "CHR '':'' \<notin> set num" and "sfx = [] \<or> hd sfx = CHR '':''"
  shows "map_of (setNameAndLength node (labelPart t)) ''length'' = Some (Num (parseFloat num)) \<and>
         (map_of (setNameAndLength node (labelPart t)) ''length'' = Some (Num NaN)
            \<longleftrightarrow> \<not> starts_number num) \<and>
         (\<exists>res. translateNode (RawNode bs par (Some t)) = Inr (Obj res) \<and>
                map_of res ''length'' =
                  (if pairsWithKey ''length'' t = [] then Some (Num (parseFloat num))
                   else Some (tagValue (last (pairsWithKey ''length'' t))))) \<and>
         (\<exists>v. translateNode r = Inr v)"
proof -
  have len: "map_of (setNameAndLength n (labelPart t)) ''length'' = Some (Num (parseFloat num))"
    for n
    unfolding assms(1) using assms(2-4) by (rule setNameAndLength_colon)
  have iff: "map_of (setNameAndLength node (labelPart t)) ''length'' = Some (Num NaN)
            \<longleftrightarrow> \<not> starts_number num"
    by (simp add: len parseFloat_NaN_iff)
  obtain node0 res where res: "translateNode (RawNode bs par (Some t)) = Inr (Obj res)"
    and look: "\<And>k. map_of res k =
        (if k = ''__proto__'' \<or> pairsWithKey k t = []
         then map_of (setNameAndLength node0 (labelPart t)) k
         else Some (tagValue (last (pairsWithKey k t))))"
    using translateNode_lookup [of bs par t] by blast
  have "map_of res ''length'' =
                  (if pairsWithKey ''length'' t = [] then Some (Num (parseFloat num))
                   else Some (tagValue (last (pairsWithKey ''length'' t))))"
    by (simp add: look len)
  with res have fin: "\<exists>res. translateNode (RawNode bs par (Some t)) = Inr (Obj res) \<and>
                map_of res ''length'' =
                  (if pairsWithKey ''length'' t = [] then Some (Num (parseFloat num))
                   else Some (tagValue (last (pairsWithKey ''length'' t))))"
    by blast
  have tot: "\<exists>v. translateNode r = Inr v"
    using translateNode_total [of r] by blast
  from len [of node] iff fin tot show ?thesis by blast
qed

theorem length_is_NaN_iff_no_number_prefix_witness:
  "labelPart ''A:x'' = ''A'' @ CHR '':'' # ''x'' @ [] \<and> CHR '':'' \<notin> set ''A'' \<and>
   CHR '':'' \<notin> set ''x'' \<and> \<not> starts_number ''x'' \<and>
   map_of (setNameAndLength [] (labelPart ''A:x'')) ''length'' = Some (Num NaN) \<and>
   (\<exists>res. translateNode (RawNode None None (Some ''A:x'')) = Inr (Obj res) \<and>
          map_of res ''length'' = Some (Num NaN)) \<and>
   parse ''(A:x,B:0.2)F;'' =
     Inr (Obj [(''branchset'',
                Arr [Obj [(''name'', Str ''A''), (''length'', Num NaN)],
                     Obj [(''name'', Str ''B''), (''length'', Num (Finite 0.2))]]),
               (''name'', Str ''F''), (''length'', Num (Finite 0))])"
proof -
  have l: "labelPart ''A:x'' = ''A'' @ CHR '':'' # ''x'' @ []" by code_simp
  have h: "CHR '':'' \<notin> set ''A''" "CHR '':'' \<notin> set ''x''" "[] = [] \<or> hd [] = CHR '':''"
    by simp_all
  have n: "\<not> starts_number ''x''" by code_simp
  have p: "pairsWithKey ''length'' ''A:x'' = []" by code_simp
  have e: "parse ''(A:x,B:0.2)F;'' =
     Inr (Obj [(''branchset'',
                Arr [Obj [(''name'', Str ''A''), (''length'', Num NaN)],
                     Obj [(''name'', Str ''B''), (''length'', Num (Finite 0.2))]]),
               (''name'', Str ''F''), (''length'', Num (Finite 0))])"
    by code_simp
  note inst = length_is_NaN_iff_no_number_prefix [OF l h, of "[]" None None "RawNode None None None"]
  from inst n have a: "map_of (setNameAndLength [] (labelPart ''A:x'')) ''length'' = Some (Num NaN)"
    by blast
  from inst a have pf: "parseFloat ''x'' = NaN" by simp
  from inst [THEN conjunct2, THEN conjunct2, THEN conjunct1]
  have "\<exists>res. translateNode (RawNode None None (Some ''A:x'')) = Inr (Obj res) \<and>
          map_of res ''length'' = Some (Num (parseFloat ''x''))"
    by (simp add: p del: translateNode.simps)
  then have b: "\<exists>res. translateNode (RawNode None None (Some ''A:x'')) = Inr (Obj res) \<and>
          map_of res ''length'' = Some (Num NaN)"
    by (simp only: pf)
  from l h(1,2) n a b e show ?thesis by blast
qed

subsection \<open>The scanner keeps its store a forest\<close>

lemma state_ok_init: "state_ok tokenize_init"
  by (simp add: state_ok_def heap_ok_def tokenize_init_def)

lemma heap_ok_child:
  "heap_ok h \<Longrightarrow> a < length h \<Longrightarrow> branchset (h ! a) = Some cs \<Longrightarrow> c \<in> set cs \<Longrightarrow>
   a < c \<and> c < length h"
  unfolding heap_ok_def by blast

lemma heap_ok_parent:
  "heap_ok h \<Longrightarrow> a < length h \<Longrightarrow> parent (h ! a) = Some p \<Longrightarrow>
   p < length h \<and> branchset (h ! p) \<noteq> None"
  unfolding heap_ok_def by blast

lemma push_child_heap_ok:
  assumes ok: "heap_ok h" and a: "a < length h"
    and push: "push_child h (Some a) child = Inr h'"
    and cb: "branchset child = None \<or> branchset child = Some []"
    and cp: "parent child = None \<or> parent child = Some a"
  shows "heap_ok h'" and "length h' = Suc (length h)"
    and "\<And>b. b < length h \<Longrightarrow> branchset (h' ! b) \<noteq> None \<longleftrightarrow> branchset (h ! b) \<noteq> None"
    and "h' ! length h = child"
proof -
  from push obtain bs where bs: "branchset (h ! a) = Some bs"
    and h': "h' = h[a := (h ! a)\<lparr>branchset := Some (bs @ [length h])\<rparr>] @ [child]"
    by (auto simp: push_child_def split: option.splits)
  show len: "length h' = Suc (length h)" by (simp add: h')
  show last: "h' ! length h = child" by (simp add: h' nth_append)
  have olda: "h' ! a = (h ! a)\<lparr>branchset := Some (bs @ [length h])\<rparr>"
    using a by (simp add: h' nth_append)
  have oldb: "h' ! b = h ! b" if "b < length h" "b \<noteq> a" for b
    using that by (simp add: h' nth_append)
  show same: "branchset (h' ! b) \<noteq> None \<longleftrightarrow> branchset (h ! b) \<noteq> None" if "b < length h" for b
  proof (cases "b = a")
    case True
    then show ?thesis by (simp add: olda bs)
  next
    case False
    with that show ?thesis by (simp add: oldb)
  qed
  have kids: "b < c \<and> c < length h'"
    if b: "b < length h'" and cs: "branchset (h' ! b) = Some cs" and c: "c \<in> set cs" for b cs c
  proof -
    consider "b = length h" | "b = a" | "b < length h" "b \<noteq> a"
      using b len by linarith
    then show ?thesis
    proof cases
      case 1
      with cs c cb last show ?thesis by auto
    next
      case 2
      with cs olda have "cs = bs @ [length h]" by simp
      with c have "c \<in> set bs \<or> c = length h" by auto
      then show ?thesis
      proof
        assume "c \<in> set bs"
        with heap_ok_child [OF ok a bs] have "a < c \<and> c < length h" by blast
        with 2 len show ?thesis by simp
      next
        assume "c = length h"
        with 2 a len show ?thesis by simp
      qed
    next
      case 3
      with cs have "branchset (h ! b) = Some cs" by (simp add: oldb)
      with heap_ok_child [OF ok 3(1) _ c] have "b < c \<and> c < length h" by blast
      with len show ?thesis by simp
    qed
  qed
  have par: "p < length h \<and> branchset (h ! p) \<noteq> None"
    if b: "b < length h'" and p: "parent (h' ! b) = Some p" for b p
  proof -
    consider "b = length h" | "b = a" | "b < length h" "b \<noteq> a"
      using b len by linarith
    then show ?thesis
    proof cases
      case 1
      with p cp last a bs show ?thesis by auto
    next
      case 2
      with p olda have "parent (h ! a) = Some p" by simp
      with heap_ok_parent [OF ok a] show ?thesis by simp
    next
      case 3
      with p have "parent (h ! b) = Some p" by (simp add: oldb)
      with heap_ok_parent [OF ok 3(1)] show ?thesis by simp
    qed
  qed
  show "heap_ok h'"
    unfolding heap_ok_def
  proof (intro allI impI conjI ballI)
    fix b cs c
    assume "b < length h'" "branchset (h' ! b) = Some cs" "c \<in> set cs"
    then show "b < c" and "c < length h'" using kids by blast+
  next
    fix b p
    assume "b < length h'" "parent (h' ! b) = Some p"
    then have pl: "p < length h \<and> branchset (h ! p) \<noteq> None" by (rule par)
    then show "p < length h'" by (simp add: len)
    from pl same [of p] show "branchset (h' ! p) \<noteq> None" by simp
  qed
qed


lemma heap_okI:
  assumes "\<And>a cs c. a < length h \<Longrightarrow> branchset (h ! a) = Some cs \<Longrightarrow> c \<in> set cs \<Longrightarrow>
             a < c \<and> c < length h"
    and "\<And>a p. a < length h \<Longrightarrow> parent (h ! a) = Some p \<Longrightarrow>
             p < length h \<and> branchset (h ! p) \<noteq> None"
  shows "heap_ok h"
  using assms unfolding heap_ok_def by blast

lemma heap_ok_set_text:
  assumes ok: "heap_ok h" shows "heap_ok (h[p := (h ! p)\<lparr>text := t\<rparr>])"
proof -
  let ?h = "h[p := (h ! p)\<lparr>text := t\<rparr>]"
  have same: "branchset (?h ! b) = branchset (h ! b) \<and> parent (?h ! b) = parent (h ! b)"
    if "b < length h" for b
    using that by (cases "b = p") simp_all
  show ?thesis
  proof (rule heap_okI)
    fix a cs c
    assume a: "a < length ?h" and cs: "branchset (?h ! a) = Some cs" and c: "c \<in> set cs"
    from a have a': "a < length h" by simp
    with cs same have "branchset (h ! a) = Some cs" by simp
    from heap_ok_child [OF ok a' this c] show "a < c \<and> c < length ?h" by simp
  next
    fix a q
    assume a: "a < length ?h" and q: "parent (?h ! a) = Some q"
    from a have a': "a < length h" by simp
    with q same have "parent (h ! a) = Some q" by simp
    from heap_ok_parent [OF ok a' this] have "q < length h" and "branchset (h ! q) \<noteq> None"
      by simp_all
    with same [of q] show "q < length ?h \<and> branchset (?h ! q) \<noteq> None" by simp
  qed
qed

lemma state_okI:
  assumes "heap_ok (heap st)"
    and "\<And>c. current st = Some c \<Longrightarrow> c < length (heap st) \<and> branchset (heap st ! c) \<noteq> None"
    and "\<And>p. prevNode st = Some p \<Longrightarrow> p < length (heap st)"
  shows "state_ok st"
  using assms unfolding state_ok_def by blast

lemma state_okD:
  assumes "state_ok st"
  shows "heap_ok (heap st)"
    and "\<And>c. current st = Some c \<Longrightarrow> c < length (heap st) \<and> branchset (heap st ! c) \<noteq> None"
    and "\<And>p. prevNode st = Some p \<Longrightarrow> p < length (heap st)"
  using assms unfolding state_ok_def by blast+

lemma tokenize_step_open:
  assumes ok: "state_ok st" and ch: "str ! i = CHR ''(''"
    and step: "tokenize_step str i st = Inr st'"
  shows "state_ok st'"
proof -
  let ?child = "\<lparr>branchset = Some [], parent = current st, text = None\<rparr>"
  from step ch obtain h where push: "push_child (heap st) (current st) ?child = Inr h"
    and st': "st' = st\<lparr>heap := h, current := Some (length (heap st)), textBegin := int i + 1\<rparr>"
    by (simp add: tokenize_step_def split: sum.splits)
  from push obtain c where c: "current st = Some c"
    by (cases "current st") (simp_all add: push_child_def)
  note hok = state_okD(1) [OF ok]
  from state_okD(2) [OF ok c] have cl: "c < length (heap st)" by simp
  from push c have push': "push_child (heap st) (Some c) ?child = Inr h" by simp
  have h1: "heap_ok h"
    and h2: "length h = Suc (length (heap st))"
    and h3: "h ! length (heap st) = ?child"
    using push_child_heap_ok [OF hok cl push'] c by simp_all
  show ?thesis
  proof (rule state_okI)
    show "heap_ok (heap st')" by (simp add: st' h1)
  next
    fix d assume "current st' = Some d"
    then have "d = length (heap st)" by (simp add: st')
    then show "d < length (heap st') \<and> branchset (heap st' ! d) \<noteq> None"
      by (simp add: st' h2 h3)
  next
    fix p assume "prevNode st' = Some p"
    then have "prevNode st = Some p" by (simp add: st')
    from state_okD(3) [OF ok this] show "p < length (heap st')" by (simp add: st' h2)
  qed
qed

lemma tokenize_step_close:
  assumes ok: "state_ok st" and ch: "str ! i = CHR '')''"
    and step: "tokenize_step str i st = Inr st'"
  shows "state_ok st'"
proof -
  from step ch obtain c where c: "current st = Some c"
    and st': "st' = st\<lparr>prevNode := Some c, current := parent (heap st ! c),
                        textBegin := int i + 1\<rparr>"
    by (simp add: tokenize_step_def split: option.splits)
  note hok = state_okD(1) [OF ok]
  from state_okD(2) [OF ok c] have cl: "c < length (heap st)" by simp
  show ?thesis
  proof (rule state_okI)
    show "heap_ok (heap st')" by (simp add: st' hok)
  next
    fix d assume "current st' = Some d"
    then have "parent (heap st ! c) = Some d" by (simp add: st')
    from heap_ok_parent [OF hok cl this]
    show "d < length (heap st') \<and> branchset (heap st' ! d) \<noteq> None" by (simp add: st')
  next
    fix p assume "prevNode st' = Some p"
    then have "p = c" by (simp add: st')
    with cl show "p < length (heap st')" by (simp add: st')
  qed
qed

lemma tokenize_step_comma:
  assumes ok: "state_ok st" and ch: "str ! i = CHR '',''"
    and step: "tokenize_step str i st = Inr st'"
  shows "state_ok st'"
proof (cases "inNhxAttr st")
  case True
  with step ch have "st' = st" by (simp add: tokenize_step_def)
  with ok show ?thesis by simp
next
  case False
  let ?text = "substr str (textBegin st) (int i - textBegin st)"
  note hok = state_okD(1) [OF ok]
  show ?thesis
  proof (cases "substr str (textBegin st - 1) 1 = '')''")
    case True
    with step ch False obtain p where p: "prevNode st = Some p"
      and st': "st' = st\<lparr>heap := (heap st)[p := (heap st ! p)\<lparr>text := Some ?text\<rparr>],
                          textBegin := int i + 1\<rparr>"
      by (simp add: tokenize_step_def Let_def split: option.splits)
    have same: "branchset (heap st' ! c) = branchset (heap st ! c)" for c
      by (cases "c = p"; cases "p < length (heap st)") (simp_all add: st' list_update_beyond)
    show ?thesis
    proof (rule state_okI)
      show "heap_ok (heap st')" using hok by (simp add: st' heap_ok_set_text)
    next
      fix d assume "current st' = Some d"
      then have "current st = Some d" by (simp add: st')
      from state_okD(2) [OF ok this]
      show "d < length (heap st') \<and> branchset (heap st' ! d) \<noteq> None"
        unfolding same by (simp add: st')
    next
      fix q assume "prevNode st' = Some q"
      then have "prevNode st = Some q" by (simp add: st')
      from state_okD(3) [OF ok this] show "q < length (heap st')" by (simp add: st')
    qed
  next
    case no: False
    let ?child = "\<lparr>branchset = None, parent = None, text = Some ?text\<rparr>"
    from step ch False no obtain h where push: "push_child (heap st) (current st) ?child = Inr h"
      and st': "st' = st\<lparr>heap := h, textBegin := int i + 1\<rparr>"
      by (simp add: tokenize_step_def Let_def split: sum.splits)
    from push obtain c where c: "current st = Some c"
      by (cases "current st") (simp_all add: push_child_def)
    from state_okD(2) [OF ok c] have cl: "c < length (heap st)"
      and cb: "branchset (heap st ! c) \<noteq> None"
      by simp_all
    from push c have push': "push_child (heap st) (Some c) ?child = Inr h" by simp
    have h1: "heap_ok h" and h2: "length h = Suc (length (heap st))"
      using push_child_heap_ok(1,2) [OF hok cl push'] by simp_all
    have h3: "branchset (h ! c) \<noteq> None"
      using push_child_heap_ok(3) [OF hok cl push' _ _ cl] cb by simp
    show ?thesis
    proof (rule state_okI)
      show "heap_ok (heap st')" by (simp add: st' h1)
    next
      fix d assume "current st' = Some d"
      with c have "d = c" by (simp add: st')
      with cl h3 show "d < length (heap st') \<and> branchset (heap st' ! d) \<noteq> None"
        by (simp add: st' h2)
    next
      fix q assume "prevNode st' = Some q"
      then have "prevNode st = Some q" by (simp add: st')
      from state_okD(3) [OF ok this] show "q < length (heap st')" by (simp add: st' h2)
    qed
  qed
qed

lemma tokenize_step_other:
  assumes ok: "state_ok st"
    and ch: "str ! i \<noteq> CHR ''(''" "str ! i \<noteq> CHR '')''" "str ! i \<noteq> CHR '',''"
    and step: "tokenize_step str i st = Inr st'"
  shows "state_ok st'"
proof -
  from step ch
  have "st' = st\<lparr>inNhxAttr := True\<rparr> \<or> st' = st\<lparr>inNhxAttr := False\<rparr> \<or> st' = st"
    by (auto simp: tokenize_step_def Let_def split: if_splits)
  then show ?thesis
  proof (elim disjE)
    assume "st' = st\<lparr>inNhxAttr := True\<rparr>"
    with ok show ?thesis by (simp add: state_ok_def)
  next
    assume "st' = st\<lparr>inNhxAttr := False\<rparr>"
    with ok show ?thesis by (simp add: state_ok_def)
  next
    assume "st' = st"
    with ok show ?thesis by simp
  qed
qed

lemma tokenize_step_ok:
  assumes ok: "state_ok st" and step: "tokenize_step str i st = Inr st'"
  shows "state_ok st'"
proof -
  consider "str ! i = CHR ''(''" | "str ! i = CHR '')''" | "str ! i = CHR '',''"
    | "str ! i \<noteq> CHR ''(''" "str ! i \<noteq> CHR '')''" "str ! i \<noteq> CHR '',''"
    by blast
  then show ?thesis
  proof cases
    case 1
    show ?thesis using ok 1 step by (rule tokenize_step_open)
  next
    case 2
    show ?thesis using ok 2 step by (rule tokenize_step_close)
  next
    case 3
    show ?thesis using ok 3 step by (rule tokenize_step_comma)
  next
    case 4
    show ?thesis using ok 4 step by (rule tokenize_step_other)
  qed
qed

lemma push_child_error: "push_child h target child = Inl e \<Longrightarrow> e = TypeError"
  by (auto simp: push_child_def split: option.splits)

lemma tokenize_step_error: "tokenize_step str i st = Inl e \<Longrightarrow> e = TypeError"
  by (auto simp: tokenize_step_def Let_def split: if_splits sum.splits option.splits
           dest: push_child_error)

lemma tokenize_loop_error: "tokenize_loop str is st = Inl e \<Longrightarrow> e = TypeError"
proof (induction "is" arbitrary: st)
  case Nil
  then show ?case by simp
next
  case (Cons i "is")
  then show ?case
    by (auto split: sum.splits dest: tokenize_step_error)
qed

lemma tokenize_error: "tokenize str = Inl e \<Longrightarrow> e = TypeError"
  by (auto simp: tokenize_def tokenize_result_def split: sum.splits option.splits
           dest: tokenize_loop_error)

lemma tokenize_loop_ok:
  "state_ok st \<Longrightarrow> tokenize_loop str is st = Inr st' \<Longrightarrow> state_ok st'"
proof (induction "is" arbitrary: st)
  case Nil
  then show ?case by simp
next
  case (Cons i "is")
  from Cons.prems(2) obtain st1 where s1: "tokenize_step str i st = Inr st1"
    and rest: "tokenize_loop str is st1 = Inr st'"
    by (auto split: sum.splits)
  from Cons.prems(1) s1 have "state_ok st1" by (rule tokenize_step_ok)
  then show ?case using rest by (rule Cons.IH)
qed

subsection \<open>From the scan to the result\<close>

lemma those_map_Some:
  "(\<And>x. x \<in> set xs \<Longrightarrow> \<exists>y. f x = Some y) \<Longrightarrow> \<exists>ys. those (map f xs) = Some ys"
proof (induction xs)
  case Nil
  show ?case by simp
next
  case (Cons x xs)
  from Cons.prems obtain y where y: "f x = Some y" by auto
  from Cons.IH Cons.prems obtain ys where "those (map f xs) = Some ys" by auto
  with y show ?case by simp
qed

lemma reify_ok:
  "heap_ok h \<Longrightarrow> a < length h \<Longrightarrow> length h \<le> fuel + a \<Longrightarrow> \<exists>t. reify fuel h a = Some t"
proof (induction fuel arbitrary: a)
  case 0
  then show ?case by simp
next
  case (Suc fuel)
  show ?case
  proof (cases "branchset (h ! a)")
    case None
    with Suc.prems(2) show ?thesis by simp
  next
    case (Some cs)
    have "\<exists>t. reify fuel h c = Some t" if c: "c \<in> set cs" for c
    proof -
      from heap_ok_child [OF Suc.prems(1,2) Some c] have "a < c" and "c < length h" by simp_all
      with Suc.prems(3) have "length h \<le> fuel + c" by simp
      with Suc.IH [OF Suc.prems(1) \<open>c < length h\<close>] show ?thesis by simp
    qed
    then obtain ts where "those (map (reify fuel h) cs) = Some ts"
      using those_map_Some [of cs "reify fuel h"] by blast
    with Some Suc.prems(2) show ?thesis by simp
  qed
qed

lemma tokenize_loop_result:
  assumes loop: "tokenize_loop str is tokenize_init = Inr st"
    and cur: "current st = Some c" and bs: "branchset (heap st ! c) = Some (a # others)"
  shows "heap_ok (heap st)" and "a < length (heap st)"
    and "tokenize_result st = Inr (Some a)"
proof -
  from state_ok_init loop have ok: "state_ok st" by (rule tokenize_loop_ok)
  show hok: "heap_ok (heap st)" by (rule state_okD(1) [OF ok])
  from state_okD(2) [OF ok cur] have "c < length (heap st)" by simp
  from heap_ok_child [OF hok this bs, of a] show "a < length (heap st)" by simp
  show "tokenize_result st = Inr (Some a)" by (simp add: tokenize_result_def cur bs)
qed

lemma tokenize_node:
  assumes "tokenize str = Inr (h, Some a)"
  shows "heap_ok h \<and> a < length h"
proof -
  from assms obtain st where loop: "tokenize_loop str [0..<length str] tokenize_init = Inr st"
    and res: "tokenize_result st = Inr (Some a)" and h: "h = heap st"
    by (auto simp: tokenize_def split: sum.splits)
  from res obtain c bs where cur: "current st = Some c"
    and bs: "branchset (heap st ! c) = Some bs" and a: "(case bs of [] \<Rightarrow> None | x # _ \<Rightarrow> Some x) = Some a"
    by (auto simp: tokenize_result_def split: option.splits)
  from a obtain others where "bs = a # others" by (cases bs) simp_all
  with bs have "branchset (heap st ! c) = Some (a # others)" by simp
  from tokenize_loop_result(1,2) [OF loop cur this] h show ?thesis by simp
qed

lemma parse_of_node:
  assumes "tokenize (appendBoundaries s) = Inr (h, Some a)"
  shows "\<exists>t res. reify (length h) h a = Some t \<and>
           translateNode (deleteParentAttr t) = Inr (Obj res) \<and> parse s = Inr (Obj res)"
proof -
  from tokenize_node [OF assms] have "heap_ok h" and "a < length h" by simp_all
  then obtain t where t: "reify (length h) h a = Some t"
    using reify_ok [of h a "length h"] by auto
  obtain res where res: "translateNode (deleteParentAttr t) = Inr (Obj res)"
    using translateNode_total by blast
  from assms t res have "parse s = Inr (Obj res)" by (simp add: parse_def)
  with t res show ?thesis by blast
qed

lemma parse_not_RangeError: "parse s \<noteq> Inl RangeError"
proof (cases "tokenize (appendBoundaries s)")
  case (Inl e)
  then have "e = TypeError" by (rule tokenize_error)
  with Inl show ?thesis by (simp add: parse_def)
next
  case (Inr r)
  obtain h x where r: "r = (h, x)" by (cases r)
  show ?thesis
  proof (cases x)
    case None
    with Inr r show ?thesis by (simp add: parse_def)
  next
    case (Some a)
    with Inr r parse_of_node [of s h a] show ?thesis by auto
  qed
qed

lemma parse_Inr_iff:
  "(\<exists>v. parse s = Inr v) \<longleftrightarrow> (\<exists>h a. tokenize (appendBoundaries s) = Inr (h, Some a))"
proof
  assume "\<exists>v. parse s = Inr v"
  then show "\<exists>h a. tokenize (appendBoundaries s) = Inr (h, Some a)"
    by (auto simp: parse_def split: sum.splits option.splits)
next
  assume "\<exists>h a. tokenize (appendBoundaries s) = Inr (h, Some a)"
  then show "\<exists>v. parse s = Inr v" using parse_of_node by blast
qed

subsection \<open>Lists of plain labels\<close>

lemma replaceCloseParen_none: "CHR '')'' \<notin> set s \<Longrightarrow> replaceCloseParen s = s"
  by (induction s) (auto simp: replaceCloseParen_def)





lemma tokenize_loop_append:
  "tokenize_loop str (xs @ ys) st =
     (case tokenize_loop str xs st of Inl e \<Rightarrow> Inl e | Inr st' \<Rightarrow> tokenize_loop str ys st')"
  by (induction xs arbitrary: st) (auto split: sum.splits)

lemma tokenize_loop_idle:
  "(\<And>i. i \<in> set is \<Longrightarrow> str ! i \<notin> set ''(),[]'') \<Longrightarrow> tokenize_loop str is st = Inr st"
proof (induction "is")
  case Nil
  show ?case by simp
next
  case (Cons i "is")
  from Cons.prems [of i] have "tokenize_step str i st = Inr st"
    by (simp add: tokenize_step_def)
  with Cons show ?case by simp
qed





lemma indexOf_absent: "c \<notin> set s \<Longrightarrow> indexOf s (c # sub) = - 1"
  by (induction s) (simp_all add: Let_def)

lemma translate_flat_leaf:
  assumes "bracket_free l1"
  shows "translateNode (RawNode None None (Some l1)) = Inr (Obj (setNameAndLength [] l1))"
proof -
  from assms have "CHR '']'' \<notin> set l1" and ob: "CHR ''['' \<notin> set l1"
    by (auto simp: bracket_free_def)
  then have "l1 = [] \<or> last l1 \<noteq> CHR '']''" by (metis last_in_set)
  then have strip: "stripFinalBracket l1 = l1" by (auto simp: stripFinalBracket_def)
  from ob have "indexOf l1 ''[&&NHX:'' = - 1" by (rule indexOf_absent)
  with strip show ?thesis by (simp del: split.simps indexOf.simps)
qed



subsection \<open>Several top-level entries\<close>



subsection \<open>Comments in the scan\<close>

lemma tokenize_loop_in_comment:
  "(\<And>i. i \<in> set is \<Longrightarrow> str ! i \<notin> set ''()[]'') \<Longrightarrow> inNhxAttr st \<Longrightarrow>
   tokenize_loop str is st = Inr st"
proof (induction "is")
  case Nil
  show ?case by simp
next
  case (Cons i "is")
  from Cons.prems(1) [of i] Cons.prems(2) have "tokenize_step str i st = Inr st"
    by (simp add: tokenize_step_def Let_def)
  with Cons show ?case by simp
qed

lemma nth_mid: "k < length seg \<Longrightarrow> (pre @ seg @ post) ! (length pre + k) = seg ! k"
  by (simp add: nth_append)

lemma idle_run:
  assumes str: "str = pre @ seg @ post" and plain: "set seg \<inter> set ''(),[]'' = {}"
    and i: "i = length pre" and j: "j = length pre + length seg"
  shows "tokenize_loop str [i..<j] st = Inr st"
proof (rule tokenize_loop_idle)
  fix m assume "m \<in> set [i..<j]"
  then obtain k where k: "k < length seg" and m: "m = length pre + k"
    using i j by (auto intro: that [of "m - length pre"])
  then have "str ! m = seg ! k" and "seg ! k \<in> set seg" by (simp_all add: str nth_append)
  with plain show "str ! m \<notin> set ''(),[]''" by auto
qed

lemma comment_body_run:
  assumes str: "str = pre @ seg @ post" and bf: "bracket_free seg" and nhx: "inNhxAttr st"
    and i: "i = length pre" and j: "j = length pre + length seg"
  shows "tokenize_loop str [i..<j] st = Inr st"
proof (rule tokenize_loop_in_comment)
  fix m assume "m \<in> set [i..<j]"
  then obtain k where k: "k < length seg" and m: "m = length pre + k"
    using i j by (auto intro: that [of "m - length pre"])
  then have "str ! m = seg ! k" and "seg ! k \<in> set seg" by (simp_all add: str nth_append)
  with bf show "str ! m \<notin> set ''()[]''" by (auto simp: bracket_free_def)
qed (rule nhx)

lemma loop_chain:
  assumes "tokenize_loop str [a..<b] st = Inr st'" and "tokenize_loop str [b..<c] st' = Inr st''"
    and "a \<le> b" and "b \<le> c"
  shows "tokenize_loop str [a..<c] st = Inr st''"
proof -
  from assms(3,4) have "[a..<c] = [a..<b] @ [b..<c]"
    by (metis le_Suc_ex upt_add_eq_append)
  with assms(1,2) show ?thesis by (simp add: tokenize_loop_append)
qed

lemma loop_single:
  "tokenize_step str i st = Inr st' \<Longrightarrow> j = Suc i \<Longrightarrow> tokenize_loop str [i..<j] st = Inr st'"
  by simp

lemma comment_run:
  assumes str: "str = pre @ ''['' @ body @ '']'' @ post" and bf: "bracket_free body"
    and off: "\<not> inNhxAttr st"
    and i: "i = length pre" and j: "j = length pre + length body + 2"
  shows "tokenize_loop str [i..<j] st = Inr st"
proof -
  let ?on = "st\<lparr>inNhxAttr := True\<rparr>"
  define m where "m = Suc i"
  define n where "n = m + length body"
  have c1: "str ! i = CHR ''[''" by (simp add: str i nth_append)
  have "tokenize_step str i st = Inr ?on" by (simp add: tokenize_step_def c1 Let_def)
  then have 1: "tokenize_loop str [i..<m] st = Inr ?on" by (rule loop_single) (simp add: m_def)
  have str2: "str = (pre @ ''['') @ body @ ('']'' @ post)" by (simp add: str)
  have 2: "tokenize_loop str [m..<n] ?on = Inr ?on"
    using str2 bf by (rule comment_body_run) (simp_all add: m_def n_def i)
  have c3: "str ! n = CHR '']''"
    using nth_mid [of 0 "'']''" "pre @ ''['' @ body" post] by (simp add: str n_def m_def i)
  from off have "?on\<lparr>inNhxAttr := False\<rparr> = st" by simp
  then have "tokenize_step str n ?on = Inr st"
    by (simp add: tokenize_step_def c3 Let_def)
  then have 3: "tokenize_loop str [n..<j] ?on = Inr st"
    by (rule loop_single) (simp add: n_def m_def i j)
  have "tokenize_loop str [i..<n] st = Inr ?on"
    by (rule loop_chain [OF 1 2]) (simp_all add: m_def n_def)
  then show ?thesis
    by (rule loop_chain [OF _ 3]) (simp_all add: m_def n_def j i)
qed

lemma substr_at:
  "str = pre @ seg @ post \<Longrightarrow> tb = int (length pre) \<Longrightarrow> n = int (length seg) \<Longrightarrow>
   substr str tb n = seg"
  by (simp add: substr_def Let_def)

lemma entry_run:
  assumes str: "str = pre @ (l1 @ ''['' @ body @ '']'') @ post"
    and l1: "set l1 \<inter> set ''(),[]'' = {}" and bf: "bracket_free body"
    and off: "\<not> inNhxAttr st"
    and i: "i = length pre" and j: "j = length pre + length l1 + length body + 2"
  shows "tokenize_loop str [i..<j] st = Inr st"
proof -
  define m where "m = i + length l1"
  have s1: "str = pre @ l1 @ (''['' @ body @ '']'' @ post)" by (simp add: str)
  have 1: "tokenize_loop str [i..<m] st = Inr st"
    using s1 l1 by (rule idle_run) (simp_all add: i m_def)
  have s2: "str = (pre @ l1) @ ''['' @ body @ '']'' @ post" by (simp add: str)
  have 2: "tokenize_loop str [m..<j] st = Inr st"
    using s2 bf off by (rule comment_run) (simp_all add: i j m_def)
  show ?thesis
    by (rule loop_chain [OF 1 2]) (simp_all add: m_def i j)
qed

lemma nth_at: "str = pre @ c # post \<Longrightarrow> i = length pre \<Longrightarrow> str ! i = c"
  by simp

lemma tokenize_pair:
  assumes l1: "set l1 \<inter> set ''(),[]'' = {}" and bf: "bracket_free body"
    and l2: "set l2 \<inter> set ''(),[]'' = {}" and l3: "set l3 \<inter> set ''(),[]'' = {}"
  shows "tokenize (''('' @ (l1 @ ''['' @ body @ '']'') @ '','' @ l2 @ '',)'' @ l3 @ '','') =
     Inr ([\<lparr>branchset = Some [1], parent = None, text = None\<rparr>,
           \<lparr>branchset = Some [2, 3], parent = Some 0, text = Some l3\<rparr>,
           \<lparr>branchset = None, parent = None, text = Some (l1 @ ''['' @ body @ '']'')\<rparr>,
           \<lparr>branchset = None, parent = None, text = Some l2\<rparr>], Some 1)"
proof -
  define e1 where "e1 = l1 @ ''['' @ body @ '']''"
  define str where "str = ''('' @ e1 @ '','' @ l2 @ '',)'' @ l3 @ '',''"
  define q0 where "q0 = Suc 0"
  define q1 where "q1 = q0 + length e1"
  define q2 where "q2 = Suc q1"
  define q3 where "q3 = q2 + length l2"
  define q4 where "q4 = Suc q3"
  define q5 where "q5 = Suc q4"
  define q6 where "q6 = q5 + length l3"
  define q7 where "q7 = Suc q6"
  note q = q0_def q1_def q2_def q3_def q4_def q5_def q6_def q7_def
  define R where "R = \<lparr>branchset = Some [1::nat], parent = None::nat option, text = None::string option\<rparr>"
  define S1 where "S1 = \<lparr>heap = [R, \<lparr>branchset = Some [], parent = Some 0, text = None\<rparr>],
      current = Some 1, textBegin = int q0, inNhxAttr = False, prevNode = None\<rparr>"
  define S2 where "S2 = \<lparr>heap = [R, \<lparr>branchset = Some [2], parent = Some 0, text = None\<rparr>,
        \<lparr>branchset = None, parent = None, text = Some e1\<rparr>],
      current = Some 1, textBegin = int q2, inNhxAttr = False, prevNode = None\<rparr>"
  define S3 where "S3 = \<lparr>heap = [R, \<lparr>branchset = Some [2, 3], parent = Some 0, text = None\<rparr>,
        \<lparr>branchset = None, parent = None, text = Some e1\<rparr>,
        \<lparr>branchset = None, parent = None, text = Some l2\<rparr>],
      current = Some 1, textBegin = int q4, inNhxAttr = False, prevNode = None\<rparr>"
  define S4 where "S4 = \<lparr>heap = [R, \<lparr>branchset = Some [2, 3], parent = Some 0, text = None\<rparr>,
        \<lparr>branchset = None, parent = None, text = Some e1\<rparr>,
        \<lparr>branchset = None, parent = None, text = Some l2\<rparr>],
      current = Some 0, textBegin = int q5, inNhxAttr = False, prevNode = Some 1\<rparr>"
  define S5 where "S5 = \<lparr>heap = [R, \<lparr>branchset = Some [2, 3], parent = Some 0, text = Some l3\<rparr>,
        \<lparr>branchset = None, parent = None, text = Some e1\<rparr>,
        \<lparr>branchset = None, parent = None, text = Some l2\<rparr>],
      current = Some 0, textBegin = int q7, inNhxAttr = False, prevNode = Some 1\<rparr>"
  have len: "length str = q7" by (simp add: str_def q)
  \<comment> \<open>the opening parenthesis\<close>
  have c0: "str ! 0 = CHR ''(''" by (simp add: str_def)
  have "tokenize_step str 0 tokenize_init = Inr S1"
    by (simp add: tokenize_step_def c0 push_child_def tokenize_init_def S1_def R_def q0_def)
  then have L0: "tokenize_loop str [0..<q0] tokenize_init = Inr S1"
    by (rule loop_single) (simp add: q0_def)
  \<comment> \<open>the first entry\<close>
  have "str = ''('' @ (l1 @ ''['' @ body @ '']'') @ ('','' @ l2 @ '',)'' @ l3 @ '','')"
    by (simp add: str_def e1_def)
  then have L1: "tokenize_loop str [q0..<q1] S1 = Inr S1"
    using l1 bf by (rule entry_run) (simp_all add: S1_def q0_def q1_def e1_def)
  \<comment> \<open>the comma after it\<close>
  have c1: "str ! q1 = CHR '',''"
    using nth_mid [of 0 "'',''" "''('' @ e1" "l2 @ '',)'' @ l3 @ '',''"]
    by (simp add: str_def q)
  have t1: "substr str (textBegin S1) (int q1 - textBegin S1) = e1"
    by (rule substr_at [of _ "''(''" _ "'','' @ l2 @ '',)'' @ l3 @ '',''"])
       (simp_all add: str_def S1_def q)
  have b1: "substr str (textBegin S1 - 1) 1 = ''(''"
    by (rule substr_at [of _ "[]" _ "e1 @ '','' @ l2 @ '',)'' @ l3 @ '',''"])
       (simp_all add: str_def S1_def q)
  have "tokenize_step str q1 S1 = Inr S2"
    unfolding tokenize_step_def Let_def c1 t1 b1
    by (simp add: push_child_def S1_def S2_def R_def q2_def)
  then have L2: "tokenize_loop str [q1..<q2] S1 = Inr S2"
    by (rule loop_single) (simp add: q2_def)
  \<comment> \<open>the second entry\<close>
  have "str = (''('' @ e1 @ '','') @ l2 @ ('',)'' @ l3 @ '','')" by (simp add: str_def)
  then have L3: "tokenize_loop str [q2..<q3] S2 = Inr S2"
    using l2 by (rule idle_run) (simp_all add: q)
  have c2: "str ! q3 = CHR '',''"
    using nth_mid [of 0 "'',''" "''('' @ e1 @ '','' @ l2" "'')'' @ l3 @ '',''"]
    by (simp add: str_def q)
  have t2: "substr str (textBegin S2) (int q3 - textBegin S2) = l2"
    by (rule substr_at [of _ "''('' @ e1 @ '',''" _ "'',)'' @ l3 @ '',''"])
       (simp_all add: str_def S2_def q)
  have b2: "substr str (textBegin S2 - 1) 1 = '',''"
    by (rule substr_at [of _ "''('' @ e1" _ "l2 @ '',)'' @ l3 @ '',''"])
       (simp_all add: str_def S2_def q)
  have "tokenize_step str q3 S2 = Inr S3"
    unfolding tokenize_step_def Let_def c2 t2 b2
    by (simp add: push_child_def S2_def S3_def R_def q4_def)
  then have L4: "tokenize_loop str [q3..<q4] S2 = Inr S3"
    by (rule loop_single) (simp add: q4_def)
  \<comment> \<open>the closing parenthesis\<close>
  have c3: "str ! q4 = CHR '')''"
    using nth_mid [of 0 "'')''" "''('' @ e1 @ '','' @ l2 @ '',''" "l3 @ '',''"]
    by (simp add: str_def q)
  have "tokenize_step str q4 S3 = Inr S4"
    unfolding tokenize_step_def Let_def c3
    by (simp add: S3_def S4_def q5_def)
  then have L5: "tokenize_loop str [q4..<q5] S3 = Inr S4"
    by (rule loop_single) (simp add: q5_def)
  \<comment> \<open>the label of the closed node\<close>
  have "str = (''('' @ e1 @ '','' @ l2 @ '',)'') @ l3 @ '',''" by (simp add: str_def)
  then have L6: "tokenize_loop str [q5..<q6] S4 = Inr S4"
    using l3 by (rule idle_run) (simp_all add: q)
  have c4: "str ! q6 = CHR '',''"
    by (rule nth_at [of _ "''('' @ e1 @ '','' @ l2 @ '',)'' @ l3" _ "[]"])
       (simp_all add: str_def q)
  have t4: "substr str (textBegin S4) (int q6 - textBegin S4) = l3"
    by (rule substr_at [of _ "''('' @ e1 @ '','' @ l2 @ '',)''" _ "'',''"])
       (simp_all add: str_def S4_def q)
  have b4: "substr str (textBegin S4 - 1) 1 = '')''"
    by (rule substr_at [of _ "''('' @ e1 @ '','' @ l2 @ '',''" _ "l3 @ '',''"])
       (simp_all add: str_def S4_def q)
  have "tokenize_step str q6 S4 = Inr S5"
    unfolding tokenize_step_def Let_def c4 t4 b4
    by (simp add: S4_def S5_def q7_def)
  then have L7: "tokenize_loop str [q6..<q7] S4 = Inr S5"
    by (rule loop_single) (simp add: q7_def)
  \<comment> \<open>the whole scan\<close>
  have "tokenize_loop str [0..<q1] tokenize_init = Inr S1"
    by (rule loop_chain [OF L0 L1]) (simp_all add: q)
  then have "tokenize_loop str [0..<q2] tokenize_init = Inr S2"
    by (rule loop_chain [OF _ L2]) (simp_all add: q)
  then have "tokenize_loop str [0..<q3] tokenize_init = Inr S2"
    by (rule loop_chain [OF _ L3]) (simp_all add: q)
  then have "tokenize_loop str [0..<q4] tokenize_init = Inr S3"
    by (rule loop_chain [OF _ L4]) (simp_all add: q)
  then have "tokenize_loop str [0..<q5] tokenize_init = Inr S4"
    by (rule loop_chain [OF _ L5]) (simp_all add: q)
  then have "tokenize_loop str [0..<q6] tokenize_init = Inr S4"
    by (rule loop_chain [OF _ L6]) (simp_all add: q)
  then have "tokenize_loop str [0..<q7] tokenize_init = Inr S5"
    by (rule loop_chain [OF _ L7]) (simp_all add: q)
  then have "tokenize str = Inr (heap S5, Some 1)"
    by (simp add: tokenize_def tokenize_result_def len S5_def R_def)
  then show ?thesis
    by (simp add: str_def e1_def S5_def R_def)
qed

lemma indexOf_found: "indexOf (a @ sep @ r) sep \<noteq> - 1"
proof (induction a)
  case Nil
  show ?case
  proof (cases "sep @ r")
    case Nil
    then show ?thesis by simp
  next
    case (Cons c cs)
    have "prefix sep (sep @ r)" by simp
    then have "prefix sep (c # cs)" unfolding Cons .
    then show ?thesis by (simp add: Cons)
  qed
next
  case (Cons x a)
  from indexOf_ge [of "a @ sep @ r" sep] have "indexOf (a @ sep @ r) sep + 1 \<noteq> - 1" by simp
  with Cons show ?case by (simp add: Let_def)
qed

lemma split_no_sep: "c \<notin> set s \<Longrightarrow> split s (c # m) = [s]"
  by (induction s) simp_all

lemma split_first_sep:
  "c \<notin> set a \<Longrightarrow> split (a @ (c # m) @ r) (c # m) = a # split r (c # m)"
  by (induction a) simp_all

lemma translate_tagged_leaf:
  assumes l1: "CHR ''['' \<notin> set l1" and k: "tag_text k" and v: "tag_text v"
  shows "translateNode (RawNode None None (Some (l1 @ ''[&&NHX:'' @ k @ ''='' @ v @ '']'')))
           = Inr (Obj (assign (setNameAndLength [] l1) k (Str v)))"
proof -
  let ?kv = "k @ ''='' @ v"
  let ?text = "l1 @ ''[&&NHX:'' @ ?kv"
  from k v have nb: "CHR ''['' \<notin> set ?kv" and nc: "CHR '':'' \<notin> set ?kv"
    and ke: "CHR ''='' \<notin> set k" and ve: "CHR ''='' \<notin> set v"
    by (auto simp: tag_text_def)
  have "stripFinalBracket ((l1 @ ''[&&NHX:'' @ k @ ''='' @ v) @ '']'') = l1 @ ''[&&NHX:'' @ k @ ''='' @ v"
    unfolding stripFinalBracket_def by (simp only: snoc_eq_iff_butlast butlast_snoc last_snoc) simp
  then have strip: "stripFinalBracket (l1 @ ''[&&NHX:'' @ k @ ''='' @ v @ '']'') = ?text" by simp
  have idx: "indexOf ?text ''[&&NHX:'' \<noteq> - 1" by (rule indexOf_found)
  have "split (l1 @ ''[&&NHX:'' @ ?kv) ''[&&NHX:'' = l1 # split ?kv ''[&&NHX:''"
    using l1 by (rule split_first_sep)
  also have "split ?kv ''[&&NHX:'' = [?kv]" using nb by (rule split_no_sep)
  finally have parts: "split ?text ''[&&NHX:'' = [l1, ?kv]" .
  have pairs: "split ?kv '':'' = [?kv]" using nc by (rule split_no_sep)
  have tk: "tagKey ?kv = k" using ke by (induction k) (auto simp: tagKey_def)
  have dw: "dropWhile (\<lambda>c. c \<noteq> CHR ''='') ?kv = CHR ''='' # v"
    using ke by (induction k) auto
  have tw: "takeWhile (\<lambda>c. c \<noteq> CHR ''='') v = v" using ve by (induction v) auto
  have tv: "tagValue ?kv = Str v" by (simp only: tagValue_def dw list.case tw)
  have tag: "setNhxAttr node ?kv = assign node k (Str v)" for node
    by (simp only: setNhxAttr_tag tk tv)
  have attrs: "setNhxAttrs node ?kv = assign node k (Str v)" for node
    using pairs tag [of node] by (simp add: setNhxAttrs_pairs del: split.simps)
  show ?thesis
    by (simp only: translateNode.simps option.case sum.case append_Nil strip Let_def idx
                   if_True parts list.case attrs simp_thms)
qed

lemma appendBoundaries_pair:
  assumes "CHR '')'' \<notin> set e1" and "CHR '')'' \<notin> set l2" and "CHR '')'' \<notin> set l3"
  shows "appendBoundaries (''('' @ e1 @ '','' @ l2 @ '')'' @ l3 @ '';'')
           = ''('' @ e1 @ '','' @ l2 @ '',)'' @ l3 @ '',''"
proof -
  have "replaceCloseParen (''('' @ e1 @ '','' @ l2 @ '')'' @ l3 @ '';'')
          = ''('' @ e1 @ '','' @ l2 @ '',)'' @ l3 @ '';''"
    using assms replaceCloseParen_none [of e1] replaceCloseParen_none [of l2]
      replaceCloseParen_none [of l3]
    by (simp add: replaceCloseParen_def)
  moreover have "replaceFinalSemicolon ((''('' @ e1 @ '','' @ l2 @ '',)'' @ l3) @ '';'')
          = (''('' @ e1 @ '','' @ l2 @ '',)'' @ l3) @ '',''"
    unfolding replaceFinalSemicolon_def by (simp only: snoc_eq_iff_butlast butlast_snoc last_snoc) simp
  ultimately show ?thesis by (simp add: appendBoundaries_def)
qed

lemma translate_two_children:
  assumes "deleteParentAttr c1 = c1" and "deleteParentAttr c2 = c2"
    and "translateNode c1 = Inr v1" and "translateNode c2 = Inr v2"
    and "stripFinalBracket t = t" and "indexOf t ''[&&NHX:'' = - 1"
  shows "translateNode (deleteParentAttr (RawNode (Some [c1, c2]) par (Some t)))
           = Inr (Obj (setNameAndLength [(''branchset'', Arr [v1, v2])] t))"
  using assms by (simp del: split.simps indexOf.simps)

lemma parse_pair:
  assumes l1: "bracket_free l1" "CHR '','' \<notin> set l1" and k: "tag_text k" and v: "tag_text v"
    and l2: "bracket_free l2" "CHR '','' \<notin> set l2"
    and l3: "bracket_free l3" "CHR '','' \<notin> set l3"
  shows "parse (''('' @ l1 @ ''[&&NHX:'' @ k @ ''='' @ v @ '']'' @ '','' @ l2 @ '')'' @ l3 @ '';'')
     = Inr (Obj (setNameAndLength
                   [(''branchset'', Arr [Obj (assign (setNameAndLength [] l1) k (Str v)),
                                         Obj (setNameAndLength [] l2)])] l3))"
proof -
  let ?body = "''&&NHX:'' @ k @ ''='' @ v"
  let ?e1 = "l1 @ ''['' @ ?body @ '']''"
  from k v have bf: "bracket_free ?body" by (auto simp: tag_text_def bracket_free_def)
  from l1 have p1: "set l1 \<inter> set ''(),[]'' = {}" by (auto simp: bracket_free_def)
  from l2 have p2: "set l2 \<inter> set ''(),[]'' = {}" by (auto simp: bracket_free_def)
  from l3 have p3: "set l3 \<inter> set ''(),[]'' = {}" by (auto simp: bracket_free_def)
  from p1 bf p2 p3 have nc: "CHR '')'' \<notin> set ?e1" "CHR '')'' \<notin> set l2" "CHR '')'' \<notin> set l3"
    by (auto simp: bracket_free_def)
  let ?h = "[\<lparr>branchset = Some [1], parent = None, text = None\<rparr>,
           \<lparr>branchset = Some [2, 3], parent = Some 0, text = Some l3\<rparr>,
           \<lparr>branchset = None, parent = None, text = Some ?e1\<rparr>,
           \<lparr>branchset = None, parent = None, text = Some l2\<rparr>]"
  have tok: "tokenize (appendBoundaries (''('' @ ?e1 @ '','' @ l2 @ '')'' @ l3 @ '';''))
               = Inr (?h, Some 1)"
    by (simp only: appendBoundaries_pair [OF nc] tokenize_pair [OF p1 bf p2 p3])
  have "reify (Suc (Suc (Suc (Suc 0)))) ?h 1 =
      Some (RawNode (Some [RawNode None None (Some ?e1), RawNode None None (Some l2)])
              (Some 0) (Some l3))"
    by simp
  then have re: "reify (length ?h) ?h 1 =
      Some (RawNode (Some [RawNode None None (Some ?e1), RawNode None None (Some l2)])
              (Some 0) (Some l3))"
    by simp
  from l1 have ob: "CHR ''['' \<notin> set l1" by (auto simp: bracket_free_def)
  have t1: "translateNode (RawNode None None (Some ?e1))
           = Inr (Obj (assign (setNameAndLength [] l1) k (Str v)))"
    using translate_tagged_leaf [OF ob k v] by simp
  have t2: "translateNode (RawNode None None (Some l2)) = Inr (Obj (setNameAndLength [] l2))"
    using l2(1) by (rule translate_flat_leaf)
  from l3 have "CHR '']'' \<notin> set l3" and o3: "CHR ''['' \<notin> set l3" by (auto simp: bracket_free_def)
  then have "l3 = [] \<or> last l3 \<noteq> CHR '']''" by (metis last_in_set)
  then have strip3: "stripFinalBracket l3 = l3" by (auto simp: stripFinalBracket_def)
  from o3 have idx3: "indexOf l3 ''[&&NHX:'' = - 1" by (rule indexOf_absent)
  have tr: "translateNode (deleteParentAttr
      (RawNode (Some [RawNode None None (Some ?e1), RawNode None None (Some l2)])
              (Some 0) (Some l3)))
     = Inr (Obj (setNameAndLength
                   [(''branchset'', Arr [Obj (assign (setNameAndLength [] l1) k (Str v)),
                                         Obj (setNameAndLength [] l2)])] l3))"
    by (rule translate_two_children [OF _ _ t1 t2 strip3 idx3]) simp_all
  have "parse (''('' @ ?e1 @ '','' @ l2 @ '')'' @ l3 @ '';'')
     = Inr (Obj (setNameAndLength
                   [(''branchset'', Arr [Obj (assign (setNameAndLength [] l1) k (Str v)),
                                         Obj (setNameAndLength [] l2)])] l3))"
    unfolding parse_def tok by (simp only: prod.case sum.case option.case re tr)
  then show ?thesis by simp
qed

lemma comment_open_run:
  assumes str: "str = pre @ ''['' @ body @ '']'' @ post" and bf: "bracket_free body"
    and i: "i = length pre" and n: "n = Suc (length pre + length body)"
  shows "tokenize_loop str [i..<n] st = Inr (st\<lparr>inNhxAttr := True\<rparr>)"
proof -
  let ?on = "st\<lparr>inNhxAttr := True\<rparr>"
  define m where "m = Suc i"
  have c1: "str ! i = CHR ''[''" by (simp add: str i nth_append)
  have "tokenize_step str i st = Inr ?on" by (simp add: tokenize_step_def c1 Let_def)
  then have 1: "tokenize_loop str [i..<m] st = Inr ?on" by (rule loop_single) (simp add: m_def)
  have str2: "str = (pre @ ''['') @ body @ ('']'' @ post)" by (simp add: str)
  have 2: "tokenize_loop str [m..<n] ?on = Inr ?on"
    using str2 bf by (rule comment_body_run) (simp_all add: m_def n i)
  show ?thesis
    by (rule loop_chain [OF 1 2]) (simp_all add: m_def n i)
qed

subsection \<open>Tag values and commas inside a comment\<close>

text \<open>
  Claim C4, as stated, fails: not every tag value is stored, and one with commas is not
  always stored verbatim. The pair \<^verbatim>\<open>__proto__=5\<close> stores nothing; of the value
  \<^verbatim>\<open>6, 7=8, 10\<close> only \<^verbatim>\<open>6, 7\<close> is stored; and a value with parentheses, as in
  \<^verbatim>\<open>b=f(x)\<close>, opens a node of its own, so that the first child of the root is no
  longer A and the tag is lost.
\<close>

theorem tag_value_not_always_stored_verbatim:
  "parse ''A[&&NHX:__proto__=5];'' = Inr (Obj [(''name'', Str ''A''), (''length'', Num (Finite 0))]) \<and>
   parse ''(A[&&NHX:b=6, 7=8, 10],B)F;'' =
     Inr (Obj [(''branchset'',
                Arr [Obj [(''name'', Str ''A''), (''length'', Num (Finite 0)), (''b'', Str ''6, 7'')],
                     Obj [(''name'', Str ''B''), (''length'', Num (Finite 0))]]),
               (''name'', Str ''F''), (''length'', Num (Finite 0))]) \<and>
   parse ''(A[&&NHX:b=f(x)],B)F;'' =
     Inr (Obj [(''branchset'',
                Arr [Obj [(''branchset'', Arr []), (''name'', Str ''''), (''length'', Num (Finite 0))],
                     Obj [(''name'', Str ''B''), (''length'', Num (Finite 0))]]),
               (''name'', Str ''F''), (''length'', Num (Finite 0))])"
  by code_simp

text \<open>
  Claim C4, amended. For every tag pair of a node's NHX comment, the property stored
  under the pair's key is never a number: nothing is stored under the key
  \<^verbatim>\<open>__proto__\<close>, and under any other key the property is the raw value of the last
  pair with that key (the text between its first and second equals sign, undefined
  without an equals sign). The scanner sets its flag at the opening bracket of a
  comment, keeps it over a body without parentheses and brackets, whatever commas the
  body has, and after the closing bracket is in the state it had before the comment:
  no node is added. Hence, for labels without parentheses, brackets and commas and a
  key and a value without parentheses, brackets, colons and equals signs,
  \<^verbatim>\<open>(l1[&&NHX:k=v],l2)l3;\<close> parses to a root with exactly two children, the first
  holding the value \<^verbatim>\<open>v\<close> verbatim under the key \<^verbatim>\<open>k\<close>; for
  \<^verbatim>\<open>(A:0.1[&&NHX:b=6, 7, 10],B:0.2)F;\<close> the tag \<^verbatim>\<open>b\<close> of A is the string
  \<^verbatim>\<open>6, 7, 10\<close>.
\<close>

theorem nhx_value_is_string_and_comment_is_one_piece:
  "(kv \<in> set (nhxPairs t) \<longrightarrow>
      (\<exists>res. translateNode (RawNode bs par (Some t)) = Inr (Obj res) \<and>
             (\<forall>x. map_of res (tagKey kv) \<noteq> Some (Num x)) \<and>
             map_of res (tagKey kv) =
               (if tagKey kv = ''__proto__'' then None
                else Some (tagValue (last (pairsWithKey (tagKey kv) t)))))) \<and>
   (\<forall>x. tagValue kv \<noteq> Num x) \<and>
   (str = pre @ ''['' @ body @ '']'' @ post \<and> bracket_free body \<longrightarrow>
      tokenize_loop str [length pre..<Suc (length pre + length body)] st
        = Inr (st\<lparr>inNhxAttr := True\<rparr>) \<and>
      (\<not> inNhxAttr st \<longrightarrow>
         tokenize_loop str [length pre..<length pre + length body + 2] st = Inr st)) \<and>
   (bracket_free l1 \<and> CHR '','' \<notin> set l1 \<and> tag_text k \<and> tag_text v \<and>
    bracket_free l2 \<and> CHR '','' \<notin> set l2 \<and> bracket_free l3 \<and> CHR '','' \<notin> set l3 \<longrightarrow>
      parse (''('' @ l1 @ ''[&&NHX:'' @ k @ ''='' @ v @ '']'' @ '','' @ l2 @ '')'' @ l3 @ '';'')
        = Inr (Obj (setNameAndLength
                      [(''branchset'', Arr [Obj (assign (setNameAndLength [] l1) k (Str v)),
                                            Obj (setNameAndLength [] l2)])] l3)) \<and>
      (k \<noteq> ''__proto__'' \<longrightarrow>
         map_of (assign (setNameAndLength [] l1) k (Str v)) k = Some (Str v))) \<and>
   parse ''(A:0.1[&&NHX:b=6, 7, 10],B:0.2)F;'' =
     Inr (Obj [(''branchset'',
                Arr [Obj [(''name'', Str ''A''), (''length'', Num (Finite 0.1)),
                          (''b'', Str ''6, 7, 10'')],
                     Obj [(''name'', Str ''B''), (''length'', Num (Finite 0.2))]]),
               (''name'', Str ''F''), (''length'', Num (Finite 0))])"
proof -
  have 1: "\<exists>res. translateNode (RawNode bs par (Some t)) = Inr (Obj res) \<and>
             (\<forall>x. map_of res (tagKey kv) \<noteq> Some (Num x)) \<and>
             map_of res (tagKey kv) =
               (if tagKey kv = ''__proto__'' then None
                else Some (tagValue (last (pairsWithKey (tagKey kv) t))))"
    if mem: "kv \<in> set (nhxPairs t)"
  proof -
    from mem have ne: "pairsWithKey (tagKey kv) t \<noteq> []"
      by (auto simp: pairsWithKey_def filter_empty_conv)
    obtain node0 res where keys: "fst ` set node0 \<subseteq> {''branchset'', ''parent''}"
      and res: "translateNode (RawNode bs par (Some t)) = Inr (Obj res)"
      and look: "\<And>k. map_of res k =
        (if k = ''__proto__'' \<or> pairsWithKey k t = []
         then map_of (setNameAndLength node0 (labelPart t)) k
         else Some (tagValue (last (pairsWithKey k t))))"
      using translateNode_lookup [of bs par t] by blast
    have val: "map_of res (tagKey kv) =
               (if tagKey kv = ''__proto__'' then None
                else Some (tagValue (last (pairsWithKey (tagKey kv) t))))"
    proof (cases "tagKey kv = ''__proto__''")
      case True
      from keys have "''__proto__'' \<notin> fst ` set node0" by auto
      then have "map_of node0 ''__proto__'' = None" by (simp add: map_of_eq_None_iff)
      then show ?thesis
        using True by (simp add: look map_of_setNameAndLength_other)
    next
      case False
      with ne show ?thesis by (simp add: look)
    qed
    then have "map_of res (tagKey kv) \<noteq> Some (Num x)" for x
      by (simp add: tagValue_not_Num)
    with val res show ?thesis by blast
  qed
  have 2: "\<forall>x. tagValue kv \<noteq> Num x" by (simp add: tagValue_not_Num)
  have 3: "tokenize_loop str [length pre..<Suc (length pre + length body)] st
             = Inr (st\<lparr>inNhxAttr := True\<rparr>)"
    if "str = pre @ ''['' @ body @ '']'' @ post" and "bracket_free body"
    using that by (rule comment_open_run) simp_all
  have 4: "tokenize_loop str [length pre..<length pre + length body + 2] st = Inr st"
    if "str = pre @ ''['' @ body @ '']'' @ post" and "bracket_free body" and "\<not> inNhxAttr st"
    using that by (rule comment_run) simp_all
  have 5: "parse (''('' @ l1 @ ''[&&NHX:'' @ k @ ''='' @ v @ '']'' @ '','' @ l2 @ '')'' @ l3 @ '';'')
        = Inr (Obj (setNameAndLength
                      [(''branchset'', Arr [Obj (assign (setNameAndLength [] l1) k (Str v)),
                                            Obj (setNameAndLength [] l2)])] l3))"
    if "bracket_free l1" "CHR '','' \<notin> set l1" "tag_text k" "tag_text v"
       "bracket_free l2" "CHR '','' \<notin> set l2" "bracket_free l3" "CHR '','' \<notin> set l3"
    using that by (rule parse_pair)
  have 6: "k \<noteq> ''__proto__'' \<longrightarrow>
         map_of (assign (setNameAndLength [] l1) k (Str v)) k = Some (Str v)"
    by (simp add: map_of_assign)
  have 7: "parse ''(A:0.1[&&NHX:b=6, 7, 10],B:0.2)F;'' =
     Inr (Obj [(''branchset'',
                Arr [Obj [(''name'', Str ''A''), (''length'', Num (Finite 0.1)),
                          (''b'', Str ''6, 7, 10'')],
                     Obj [(''name'', Str ''B''), (''length'', Num (Finite 0.2))]]),
               (''name'', Str ''F''), (''length'', Num (Finite 0))])"
    by code_simp
  from 1 2 3 4 5 6 7 show ?thesis by blast
qed

theorem nhx_value_is_string_and_comment_is_one_piece_witness:
  "''b=6, 7, 10'' \<in> set (nhxPairs ''A:0.1[&&NHX:gn=0.2948622:b=6, 7, 10]'') \<and>
   (\<exists>res. translateNode (RawNode None None (Some ''A:0.1[&&NHX:gn=0.2948622:b=6, 7, 10]''))
            = Inr (Obj res) \<and>
          map_of res ''b'' = Some (Str ''6, 7, 10'')) \<and>
   bracket_free ''b=6, 7'' \<and> \<not> inNhxAttr tokenize_init \<and>
   tokenize_loop ''[b=6, 7],'' [0..<7] tokenize_init = Inr (tokenize_init\<lparr>inNhxAttr := True\<rparr>) \<and>
   tokenize_loop ''[b=6, 7],'' [0..<8] tokenize_init = Inr tokenize_init \<and>
   bracket_free ''A:0.1'' \<and> CHR '','' \<notin> set ''A:0.1'' \<and> tag_text ''b'' \<and> tag_text ''6, 7, 10'' \<and>
   bracket_free ''B:0.2'' \<and> CHR '','' \<notin> set ''B:0.2'' \<and> bracket_free ''F'' \<and> CHR '','' \<notin> set ''F'' \<and>
   parse ''(A:0.1[&&NHX:b=6, 7, 10],B:0.2)F;''
     = Inr (Obj (setNameAndLength
                   [(''branchset'', Arr [Obj (assign (setNameAndLength [] ''A:0.1'') ''b'' (Str ''6, 7, 10'')),
                                         Obj (setNameAndLength [] ''B:0.2'')])] ''F'')) \<and>
   map_of (assign (setNameAndLength [] ''A:0.1'') ''b'' (Str ''6, 7, 10'')) ''b'' = Some (Str ''6, 7, 10'')"
proof -
  note inst = nhx_value_is_string_and_comment_is_one_piece
    [of "''b=6, 7, 10''" "''A:0.1[&&NHX:gn=0.2948622:b=6, 7, 10]''" None None
        "''[b=6, 7],''" "[]" "''b=6, 7''" "'',''" tokenize_init
        "''A:0.1''" "''b''" "''6, 7, 10''" "''B:0.2''" "''F''"]
  have p: "nhxPairs ''A:0.1[&&NHX:gn=0.2948622:b=6, 7, 10]'' = [''gn=0.2948622'', ''b=6, 7, 10'']"
    by code_simp
  have q: "pairsWithKey ''b'' ''A:0.1[&&NHX:gn=0.2948622:b=6, 7, 10]'' = [''b=6, 7, 10'']"
    by code_simp
  have k: "tagKey ''b=6, 7, 10'' = ''b''" by code_simp
  have v: "tagValue ''b=6, 7, 10'' = Str ''6, 7, 10''" by code_simp
  have mem: "''b=6, 7, 10'' \<in> set (nhxPairs ''A:0.1[&&NHX:gn=0.2948622:b=6, 7, 10]'')"
    by (simp add: p)
  have bf: "bracket_free ''b=6, 7''" by code_simp
  have off: "\<not> inNhxAttr tokenize_init" by (simp add: tokenize_init_def)
  have hyp: "bracket_free ''A:0.1'' \<and> CHR '','' \<notin> set ''A:0.1'' \<and> tag_text ''b'' \<and>
     tag_text ''6, 7, 10'' \<and> bracket_free ''B:0.2'' \<and> CHR '','' \<notin> set ''B:0.2'' \<and>
     bracket_free ''F'' \<and> CHR '','' \<notin> set ''F''"
    by code_simp
  have a: "\<exists>res. translateNode (RawNode None None (Some ''A:0.1[&&NHX:gn=0.2948622:b=6, 7, 10]''))
            = Inr (Obj res) \<and> map_of res ''b'' = Some (Str ''6, 7, 10'')"
    using inst [THEN conjunct1] mem by (auto simp: q k v simp del: translateNode.simps)
  have len: "length ('''' :: string) = 0" "Suc (0 + length ''b=6, 7'') = 7"
    "0 + length ''b=6, 7'' + 2 = 8"
    by simp_all
  from inst [THEN conjunct2, THEN conjunct2, THEN conjunct1] bf
  have b: "tokenize_loop ''[b=6, 7],'' [0..<7] tokenize_init = Inr (tokenize_init\<lparr>inNhxAttr := True\<rparr>)"
    and c: "tokenize_loop ''[b=6, 7],'' [0..<8] tokenize_init = Inr tokenize_init"
    using off by (simp_all only: len append_Nil append_Cons simp_thms)
  from inst [THEN conjunct2, THEN conjunct2, THEN conjunct2, THEN conjunct1] hyp
  have d: "parse ''(A:0.1[&&NHX:b=6, 7, 10],B:0.2)F;''
     = Inr (Obj (setNameAndLength
                   [(''branchset'', Arr [Obj (assign (setNameAndLength [] ''A:0.1'') ''b'' (Str ''6, 7, 10'')),
                                         Obj (setNameAndLength [] ''B:0.2'')])] ''F''))"
    and e: "map_of (assign (setNameAndLength [] ''A:0.1'') ''b'' (Str ''6, 7, 10'')) ''b'' = Some (Str ''6, 7, 10'')"
    by simp_all
  from mem a bf off b c hyp d e show ?thesis by blast
qed

subsection \<open>Inputs for which the scanner yields no node\<close>

text \<open>
  Claim C7, as stated, fails: for the empty input \<^verbatim>\<open>parse\<close> raises a
  TypeError.
\<close>

theorem parse_empty_input_raises: "parse [] = Inl TypeError"
  by code_simp

text \<open>
  Claim C7, amended. For the empty input the scanner completes and yields
  \<^verbatim>\<open>undefined\<close>, and \<^verbatim>\<open>parse\<close> then raises a TypeError in
  \<^verbatim>\<open>deleteParentAttr\<close>. In general \<^verbatim>\<open>parse\<close> completes without raising
  exactly when the scanner returns a node; an input without the final terminator such
  as \<^verbatim>\<open>(A,B)\<close> gives an incomplete tree (a root without name and length).
\<close>

theorem parse_returns_iff_tokenize_returns_node:
  "tokenize (appendBoundaries []) =
     Inr ([\<lparr>branchset = Some [], parent = None, text = None\<rparr>], None) \<and>
   parse [] = Inl TypeError \<and>
   ((\<exists>v. parse s = Inr v) \<longleftrightarrow> (\<exists>h a. tokenize (appendBoundaries s) = Inr (h, Some a))) \<and>
   parse ''(A,B)'' =
     Inr (Obj [(''branchset'',
                Arr [Obj [(''name'', Str ''A''), (''length'', Num (Finite 0))],
                     Obj [(''name'', Str ''B''), (''length'', Num (Finite 0))]])])"
proof -
  have 1: "tokenize (appendBoundaries []) =
     Inr ([\<lparr>branchset = Some [], parent = None, text = None\<rparr>], None)"
    by code_simp
  have 2: "parse [] = Inl TypeError" by code_simp
  have 3: "parse ''(A,B)'' =
     Inr (Obj [(''branchset'',
                Arr [Obj [(''name'', Str ''A''), (''length'', Num (Finite 0))],
                     Obj [(''name'', Str ''B''), (''length'', Num (Finite 0))]])])"
    by code_simp
  from 1 2 3 parse_Inr_iff [of s] show ?thesis by blast
qed

theorem parse_returns_iff_tokenize_returns_node_witness:
  "tokenize (appendBoundaries ''A'') =
     Inr ([\<lparr>branchset = Some [], parent = None, text = None\<rparr>], None) \<and>
   \<not> (\<exists>v. parse ''A'' = Inr v)"
proof -
  have t: "tokenize (appendBoundaries ''A'') =
     Inr ([\<lparr>branchset = Some [], parent = None, text = None\<rparr>], None)"
    by code_simp
  with parse_returns_iff_tokenize_returns_node [of "''A''"] show ?thesis by simp
qed

end
